theory Spec2Isabelle
  imports Main "HOL-Library.Word"
begin

unbundle bit_operations_syntax

section \<open>Data model\<close>

text \<open>
  The header \<^verbatim>\<open>compression.h\<close> is a family of templates over an unsigned value type
  \<^verbatim>\<open>TVal\<close>.  A value of width \<open>W\<close> is an \<open>'a word\<close> with \<open>LENGTH('a) = W\<close>; bytes
  (\<^verbatim>\<open>unsigned char\<close>) are \<open>8 word\<close>.  A byte buffer is a list of bytes and an iterator
  into it is an index.  Dereferencing an iterator outside the buffer is undefined in C++
  and a failed \<^verbatim>\<open>assert\<close> aborts the program: both are error results of the model.  The
  assertions are checked, as they are unless the header is compiled with \<^verbatim>\<open>NDEBUG\<close>.
\<close>

type_synonym byte = "8 word"

datatype error = AssertionFailed | OutOfBounds

subsection \<open>The shift of \<^verbatim>\<open>Base128Int::get\<close>\<close>

text \<open>
  In \<^verbatim>\<open>acc |= i << cnt\<close> the left operand \<^verbatim>\<open>i\<close> is a \<^verbatim>\<open>byte_t\<close>, so C++ promotes it
  to \<^verbatim>\<open>int\<close> and the shift is a shift of a 32-bit \<^verbatim>\<open>int\<close>, whatever \<^verbatim>\<open>TVal\<close> is.  Its
  result is converted to \<^verbatim>\<open>TVal\<close> for the \<^verbatim>\<open>|=\<close>: truncated when \<^verbatim>\<open>TVal\<close> has at most 32
  bits, sign-extended when it has more; \<open>scast\<close> is this conversion.

  The shift is defined by the language while the count is below 32 and no set bit leaves
  the 32 bits.  Outside of that the model takes what the shift instruction of x86-64
  computes: the count modulo 32, the bits above bit 31 dropped.  The values decoded below
  at concrete bytes come from shifts that the language defines.
\<close>

definition shl_int :: "32 word \<Rightarrow> nat \<Rightarrow> 32 word" where
  "shl_int i cnt = push_bit (cnt mod 32) i"

section \<open>\<^verbatim>\<open>Base128Int\<close>\<close>

subsection \<open>\<^verbatim>\<open>get\<close>\<close>

text \<open>
  The loop of \<^verbatim>\<open>get\<close>, from the iterator \<open>p\<close> on, with the accumulator and the shift
  count (both of type \<^verbatim>\<open>TVal\<close>).  It returns the decoded value (the new \<^verbatim>\<open>value_\<close>) and
  the iterator behind the last byte read.  The loop never looks at \<^verbatim>\<open>end\<close>.
\<close>

function get_loop ::
  "byte list \<Rightarrow> nat \<Rightarrow> 'a::len word \<Rightarrow> 'a word \<Rightarrow> error + ('a word \<times> nat)" where
  "get_loop mem p acc cnt =
     (if p < length mem then
        (let b = mem ! p;
             i = b AND 0x7F;
             acc' = acc OR scast (shl_int (ucast i) (unat cnt))
         in if b AND 0x80 = 0 then Inr (acc', p + 1)
            else get_loop mem (p + 1) acc' (cnt + 7))
      else Inl OutOfBounds)"
  by pat_completeness auto
termination
  by (relation "measure (\<lambda>(mem, p, acc, cnt). length mem - p)") auto

declare get_loop.simps [simp del]

definition Base128Int_get ::
  "byte list \<Rightarrow> nat \<Rightarrow> nat \<Rightarrow> error + ('a::len word \<times> nat)" where
  "Base128Int_get mem begin end =
     (if begin < end then get_loop mem begin 0 0 else Inl AssertionFailed)"

subsection \<open>\<^verbatim>\<open>put\<close> into a bounded range\<close>

text \<open>
  The loop of the bounded \<^verbatim>\<open>put\<close>.  It writes through \<open>p\<close> into the buffer and returns
  the buffer as it leaves it, with \<^verbatim>\<open>begin\<close> when the range is used up before the value
  is, and the iterator behind the last byte otherwise.
\<close>

function put_loop ::
  "'a::len word \<Rightarrow> byte list \<Rightarrow> nat \<Rightarrow> nat \<Rightarrow> nat \<Rightarrow> error + (byte list \<times> nat)" where
  "put_loop val mem begin end p =
     (if p < length mem then
        (let mem1 = mem[p := ucast (val AND 0x7F)];
             val' = drop_bit 7 val
         in if val' \<noteq> 0 then
              (let mem2 = mem1[p := mem1 ! p OR 0x80];
                   p' = p + 1
               in if p' = end then Inr (mem2, begin)
                  else put_loop val' mem2 begin end p')
            else Inr (mem1, p + 1))
      else Inl OutOfBounds)"
  by pat_completeness auto
termination
proof (relation "measure (\<lambda>(val, mem, begin, end, p). unat val)")
  show "wf (measure (\<lambda>(val :: 'a word, mem :: byte list, begin :: nat, end :: nat, p :: nat). unat val))"
    by simp
next
  fix val :: "'a word" and mem :: "byte list" and "begin" "end" p :: nat
    and mem1 val' mem2 p'
  assume rest: "val' = drop_bit 7 val" "val' \<noteq> 0"
  have "unat (drop_bit 7 val) = drop_bit 7 (unat val)"
    by (rule unat_drop_bit_eq)
  also have "\<dots> = unat val div 2 ^ 7"
    by (rule drop_bit_eq_div)
  finally have shifted: "unat (drop_bit 7 val) = unat val div 2 ^ 7" .
  from rest have "unat (drop_bit 7 val) \<noteq> 0"
    by (simp only: unat_eq_zero not_False_eq_True)
  with shifted have "unat val div 2 ^ 7 \<noteq> 0"
    by simp
  then have "unat val div 2 ^ 7 < unat val"
    by (intro div_less_dividend) auto
  with shifted rest
  show "((val', mem2, begin, end, p'), (val, mem, begin, end, p))
          \<in> measure (\<lambda>(val, mem, begin, end, p). unat val)"
    by simp
qed

declare put_loop.simps [simp del]

definition Base128Int_put ::
  "'a::len word \<Rightarrow> byte list \<Rightarrow> nat \<Rightarrow> nat \<Rightarrow> error + (byte list \<times> nat)" where
  "Base128Int_put val mem begin end =
     (if begin \<ge> end then Inr (mem, begin) else put_loop val mem begin end begin)"

subsection \<open>\<^verbatim>\<open>put\<close> into an inserter (unchecked)\<close>

text \<open>
  The inserter appends to the sink, here the list of the bytes appended so far.
\<close>

function Base128Int_put_unchecked :: "'a::len word \<Rightarrow> byte list \<Rightarrow> byte list" where
  "Base128Int_put_unchecked val sink =
     (let result = ucast (val AND 0x7F);
          val' = drop_bit 7 val
      in if val' \<noteq> 0 then Base128Int_put_unchecked val' (sink @ [result OR 0x80])
         else sink @ [result])"
  by pat_completeness auto
termination
proof (relation "measure (\<lambda>(val, sink). unat val)")
  show "wf (measure (\<lambda>(val :: 'a word, sink :: byte list). unat val))"
    by simp
next
  fix val :: "'a word" and sink :: "byte list" and result :: byte and val'
  assume rest: "val' = drop_bit 7 val" "val' \<noteq> 0"
  have "unat (drop_bit 7 val) = drop_bit 7 (unat val)"
    by (rule unat_drop_bit_eq)
  also have "\<dots> = unat val div 2 ^ 7"
    by (rule drop_bit_eq_div)
  finally have shifted: "unat (drop_bit 7 val) = unat val div 2 ^ 7" .
  from rest have "unat (drop_bit 7 val) \<noteq> 0"
    by (simp only: unat_eq_zero not_False_eq_True)
  with shifted have "unat val div 2 ^ 7 \<noteq> 0"
    by simp
  then have "unat val div 2 ^ 7 < unat val"
    by (intro div_less_dividend) auto
  with shifted rest
  show "((val', sink @ [result OR 0x80]), (val, sink))
          \<in> measure (\<lambda>(val, sink). unat val)"
    by simp
qed

declare Base128Int_put_unchecked.simps [simp del]

section \<open>Results of calls that can fail\<close>

text \<open>
  A call either fails (\<open>Inl\<close>) or returns (\<open>Inr\<close>); a failure ends the caller as well.
\<close>

definition and_then :: "error + 'x \<Rightarrow> ('x \<Rightarrow> error + 'y) \<Rightarrow> error + 'y" where
  "and_then r f = (case r of Inl e \<Rightarrow> Inl e | Inr x \<Rightarrow> f x)"

section \<open>\<^verbatim>\<open>Base128StreamWriter\<close> and \<^verbatim>\<open>Base128StreamReader\<close>\<close>

text \<open>
  The writer holds a reference to the vector \<^verbatim>\<open>data_\<close> and nothing else: its state is
  that vector.  \<^verbatim>\<open>put\<close> runs the unchecked \<^verbatim>\<open>Base128Int::put\<close> on a back inserter of
  the vector, \<^verbatim>\<open>close\<close> does nothing.
\<close>

definition Base128StreamWriter_put :: "'a::len word \<Rightarrow> byte list \<Rightarrow> error + byte list" where
  "Base128StreamWriter_put v data = Inr (Base128Int_put_unchecked v data)"

definition Base128StreamWriter_close :: "byte list \<Rightarrow> error + byte list" where
  "Base128StreamWriter_close data = Inr data"

definition Base128StreamWriter_size :: "byte list \<Rightarrow> nat" where
  "Base128StreamWriter_size data = length data"

record Base128StreamReader =
  rd_data :: "byte list"
  rd_pos :: nat
  rd_end :: nat

definition Base128StreamReader_init :: "byte list \<Rightarrow> Base128StreamReader" where
  "Base128StreamReader_init data = \<lparr>rd_data = data, rd_pos = 0, rd_end = length data\<rparr>"

definition Base128StreamReader_next ::
  "Base128StreamReader \<Rightarrow> error + ('a::len word \<times> Base128StreamReader)" where
  "Base128StreamReader_next r =
     and_then (Base128Int_get (rd_data r) (rd_pos r) (rd_end r))
       (\<lambda>(v, p). Inr (v, r\<lparr>rd_pos := p\<rparr>))"

section \<open>\<^verbatim>\<open>DeltaStreamWriter\<close> and \<^verbatim>\<open>DeltaStreamReader\<close>\<close>

text \<open>
  The template parameter \<^verbatim>\<open>Stream\<close> is the type \<open>'s\<close> of the wrapped stream's state, and
  the member functions of the wrapped stream that a transform calls are arguments of the
  transform's functions: \<open>stream_put\<close>, \<open>stream_close\<close>, \<open>stream_size\<close>, \<open>stream_next\<close>.
  The fields of type \<^verbatim>\<open>TVal\<close> have the type \<open>'v\<close>, which every function below takes to
  be a word.
\<close>

record ('s, 'v) DeltaStreamWriter =
  dw_stream :: 's
  dw_prev :: 'v

definition DeltaStreamWriter_init :: "'s \<Rightarrow> ('s, 'a::len word) DeltaStreamWriter" where
  "DeltaStreamWriter_init stream = \<lparr>dw_stream = stream, dw_prev = 0\<rparr>"

definition DeltaStreamWriter_put ::
  "('a::len word \<Rightarrow> 's \<Rightarrow> error + 's) \<Rightarrow> 'a word \<Rightarrow> ('s, 'a word) DeltaStreamWriter
     \<Rightarrow> error + ('s, 'a word) DeltaStreamWriter" where
  "DeltaStreamWriter_put stream_put v w =
     (if v \<ge> dw_prev w then
        (let delta = v - dw_prev w
         in and_then (stream_put delta (dw_stream w))
              (\<lambda>s. Inr (w\<lparr>dw_stream := s, dw_prev := v\<rparr>)))
      else Inl AssertionFailed)"

definition DeltaStreamWriter_size :: "('s \<Rightarrow> nat) \<Rightarrow> ('s, 'a::len word) DeltaStreamWriter \<Rightarrow> nat" where
  "DeltaStreamWriter_size stream_size w = stream_size (dw_stream w)"

definition DeltaStreamWriter_close ::
  "('s \<Rightarrow> error + 's) \<Rightarrow> ('s, 'a::len word) DeltaStreamWriter \<Rightarrow> error + ('s, 'a word) DeltaStreamWriter" where
  "DeltaStreamWriter_close stream_close w =
     and_then (stream_close (dw_stream w)) (\<lambda>s. Inr (w\<lparr>dw_stream := s\<rparr>))"

record ('s, 'v) DeltaStreamReader =
  dr_stream :: 's
  dr_prev :: 'v

definition DeltaStreamReader_init :: "'s \<Rightarrow> ('s, 'a::len word) DeltaStreamReader" where
  "DeltaStreamReader_init stream = \<lparr>dr_stream = stream, dr_prev = 0\<rparr>"

definition DeltaStreamReader_next ::
  "('s \<Rightarrow> error + ('a::len word \<times> 's)) \<Rightarrow> ('s, 'a word) DeltaStreamReader
     \<Rightarrow> error + ('a word \<times> ('s, 'a word) DeltaStreamReader)" where
  "DeltaStreamReader_next stream_next r =
     and_then (stream_next (dr_stream r))
       (\<lambda>(delta, s).
          let v = dr_prev r + delta
          in Inr (v, r\<lparr>dr_stream := s, dr_prev := v\<rparr>))"

section \<open>\<^verbatim>\<open>RLEStreamWriter\<close> and \<^verbatim>\<open>RLEStreamReader\<close>\<close>

record ('s, 'v) RLEStreamWriter =
  rw_stream :: 's
  rw_prev :: 'v
  rw_reps :: 'v

definition RLEStreamWriter_init :: "'s \<Rightarrow> ('s, 'a::len word) RLEStreamWriter" where
  "RLEStreamWriter_init stream = \<lparr>rw_stream = stream, rw_prev = 0, rw_reps = 0\<rparr>"

definition RLEStreamWriter_put ::
  "('a::len word \<Rightarrow> 's \<Rightarrow> error + 's) \<Rightarrow> 'a word \<Rightarrow> ('s, 'a word) RLEStreamWriter
     \<Rightarrow> error + ('s, 'a word) RLEStreamWriter" where
  "RLEStreamWriter_put stream_put v w =
     and_then
       (if v \<noteq> rw_prev w then
          and_then
            (if rw_reps w \<noteq> 0 then
               and_then (stream_put (rw_reps w) (rw_stream w))
                 (\<lambda>s. stream_put (rw_prev w) s)
             else Inr (rw_stream w))
            (\<lambda>s. Inr (w\<lparr>rw_stream := s, rw_prev := v, rw_reps := 0\<rparr>))
        else Inr w)
       (\<lambda>w'. Inr (w'\<lparr>rw_reps := rw_reps w' + 1\<rparr>))"

definition RLEStreamWriter_size :: "('s \<Rightarrow> nat) \<Rightarrow> ('s, 'a::len word) RLEStreamWriter \<Rightarrow> nat" where
  "RLEStreamWriter_size stream_size w = stream_size (rw_stream w)"

definition RLEStreamWriter_close ::
  "('a::len word \<Rightarrow> 's \<Rightarrow> error + 's) \<Rightarrow> ('s, 'a word) RLEStreamWriter
     \<Rightarrow> error + ('s, 'a word) RLEStreamWriter" where
  "RLEStreamWriter_close stream_put w =
     and_then (stream_put (rw_reps w) (rw_stream w))
       (\<lambda>s. and_then (stream_put (rw_prev w) s)
          (\<lambda>s'. Inr (w\<lparr>rw_stream := s'\<rparr>)))"

record ('s, 'v) RLEStreamReader =
  rr_stream :: 's
  rr_prev :: 'v
  rr_reps :: 'v

definition RLEStreamReader_init :: "'s \<Rightarrow> ('s, 'a::len word) RLEStreamReader" where
  "RLEStreamReader_init stream = \<lparr>rr_stream = stream, rr_prev = 0, rr_reps = 0\<rparr>"

definition RLEStreamReader_next ::
  "('s \<Rightarrow> error + ('a::len word \<times> 's)) \<Rightarrow> ('s, 'a word) RLEStreamReader
     \<Rightarrow> error + ('a word \<times> ('s, 'a word) RLEStreamReader)" where
  "RLEStreamReader_next stream_next r =
     and_then
       (if rr_reps r = 0 then
          and_then (stream_next (rr_stream r))
            (\<lambda>(reps, s). and_then (stream_next s)
               (\<lambda>(prev, s'). Inr (r\<lparr>rr_stream := s', rr_prev := prev, rr_reps := reps\<rparr>)))
        else Inr r)
       (\<lambda>r'. Inr (rr_prev r', r'\<lparr>rr_reps := rr_reps r' - 1\<rparr>))"

section \<open>Producers and consumers\<close>

text \<open>
  A producer calls \<^verbatim>\<open>put\<close> once per value, in order; a consumer calls \<^verbatim>\<open>next\<close> once per
  value it expects.  Both stop at the first call that fails.
\<close>

fun put_all :: "('v \<Rightarrow> 's \<Rightarrow> error + 's) \<Rightarrow> 'v list \<Rightarrow> 's \<Rightarrow> error + 's" where
  "put_all put [] s = Inr s"
| "put_all put (x # xs) s = and_then (put x s) (put_all put xs)"

fun next_n :: "('s \<Rightarrow> error + ('v \<times> 's)) \<Rightarrow> nat \<Rightarrow> 's \<Rightarrow> error + ('v list \<times> 's)" where
  "next_n nxt 0 s = Inr ([], s)"
| "next_n nxt (Suc n) s =
     and_then (nxt s)
       (\<lambda>(v, s'). and_then (next_n nxt n s') (\<lambda>(vs, s''). Inr (v # vs, s'')))"

section \<open>Values within the reach of the shift\<close>

text \<open>
  The values whose 7-bit groups the \<^verbatim>\<open>int\<close> shift of \<^verbatim>\<open>get\<close> puts in place without loss and
  without a sign to extend: every value when \<^verbatim>\<open>TVal\<close> has at most 32 bits, the values
  below \<open>2^31\<close> when it has more.
\<close>

definition shifts_exactly :: "'a::len word \<Rightarrow> bool" where
  "shifts_exactly v \<longleftrightarrow> LENGTH('a) \<le> 32 \<or> unat v < 2 ^ 31"

section \<open>Scenarios\<close>

text \<open>
  The pipelines that the properties below are about.  A writer stack is built on an empty
  vector, fed, closed where the scenario says so, and the vector is what it leaves; a
  reader stack is built on a vector and asked for a number of values.
\<close>

text \<open>\<^verbatim>\<open>RLEStreamWriter\<close> over \<^verbatim>\<open>Base128StreamWriter\<close>, with \<^verbatim>\<open>close\<close>, and its reader.\<close>

definition rle_encode :: "'a::len word list \<Rightarrow> error + byte list" where
  "rle_encode S =
     and_then (put_all (RLEStreamWriter_put Base128StreamWriter_put) S (RLEStreamWriter_init []))
       (\<lambda>w. and_then (RLEStreamWriter_close Base128StreamWriter_put w)
          (\<lambda>w'. Inr (rw_stream w')))"

definition rle_decode :: "nat \<Rightarrow> byte list \<Rightarrow> error + 'a::len word list" where
  "rle_decode n data =
     and_then (next_n (RLEStreamReader_next Base128StreamReader_next) n
                 (RLEStreamReader_init (Base128StreamReader_init data)))
       (\<lambda>(vs, r). Inr vs)"

text \<open>
  A stream that records the values put into it, in place of \<^verbatim>\<open>Base128StreamWriter\<close>: it
  shows what a transform writes to the stream it wraps.
\<close>

definition log_put :: "'v \<Rightarrow> 'v list \<Rightarrow> error + 'v list" where
  "log_put v log = Inr (log @ [v])"

definition rle_written :: "'a::len word list \<Rightarrow> error + 'a word list" where
  "rle_written S =
     and_then (put_all (RLEStreamWriter_put log_put) S (RLEStreamWriter_init []))
       (\<lambda>w. and_then (RLEStreamWriter_close log_put w)
          (\<lambda>w'. Inr (rw_stream w')))"

text \<open>\<^verbatim>\<open>DeltaStreamWriter\<close> over \<^verbatim>\<open>Base128StreamWriter\<close>, and its reader.\<close>

definition delta_encode :: "'a::len word list \<Rightarrow> error + byte list" where
  "delta_encode S =
     and_then (put_all (DeltaStreamWriter_put Base128StreamWriter_put) S (DeltaStreamWriter_init []))
       (\<lambda>w. Inr (dw_stream w))"

definition delta_decode :: "nat \<Rightarrow> byte list \<Rightarrow> error + 'a::len word list" where
  "delta_decode n data =
     and_then (next_n (DeltaStreamReader_next Base128StreamReader_next) n
                 (DeltaStreamReader_init (Base128StreamReader_init data)))
       (\<lambda>(vs, r). Inr vs)"

text \<open>
  \<^verbatim>\<open>RLEStreamWriter\<close> over \<^verbatim>\<open>DeltaStreamWriter\<close> over \<^verbatim>\<open>Base128StreamWriter\<close>, with
  \<^verbatim>\<open>close\<close>, and its reader.
\<close>

definition rle_delta_encode :: "'a::len word list \<Rightarrow> error + byte list" where
  "rle_delta_encode S =
     and_then (put_all (RLEStreamWriter_put (DeltaStreamWriter_put Base128StreamWriter_put)) S
                 (RLEStreamWriter_init (DeltaStreamWriter_init [])))
       (\<lambda>w. and_then (RLEStreamWriter_close (DeltaStreamWriter_put Base128StreamWriter_put) w)
          (\<lambda>w'. Inr (dw_stream (rw_stream w'))))"

definition rle_delta_decode :: "nat \<Rightarrow> byte list \<Rightarrow> error + 'a::len word list" where
  "rle_delta_decode n data =
     and_then (next_n (RLEStreamReader_next (DeltaStreamReader_next Base128StreamReader_next)) n
                 (RLEStreamReader_init (DeltaStreamReader_init (Base128StreamReader_init data))))
       (\<lambda>(vs, r). Inr vs)"

text \<open>
  The stack the other way round: \<^verbatim>\<open>DeltaStreamWriter\<close> over \<^verbatim>\<open>RLEStreamWriter\<close> over
  \<^verbatim>\<open>Base128StreamWriter\<close>, with \<^verbatim>\<open>close\<close>, and its reader.
\<close>

definition delta_rle_encode :: "'a::len word list \<Rightarrow> error + byte list" where
  "delta_rle_encode S =
     and_then (put_all (DeltaStreamWriter_put (RLEStreamWriter_put Base128StreamWriter_put)) S
                 (DeltaStreamWriter_init (RLEStreamWriter_init [])))
       (\<lambda>w. and_then (DeltaStreamWriter_close (RLEStreamWriter_close Base128StreamWriter_put) w)
          (\<lambda>w'. Inr (rw_stream (dw_stream w'))))"

definition delta_rle_decode :: "nat \<Rightarrow> byte list \<Rightarrow> error + 'a::len word list" where
  "delta_rle_decode n data =
     and_then (next_n (DeltaStreamReader_next (RLEStreamReader_next Base128StreamReader_next)) n
                 (DeltaStreamReader_init (RLEStreamReader_init (Base128StreamReader_init data))))
       (\<lambda>(vs, r). Inr vs)"

section \<open>Runs and differences of a sequence\<close>

text \<open>
  The runs of a sequence, each as the pair of its length and its value: \<open>runs_from m p xs\<close>
  are the runs of \<open>m\<close> times \<open>p\<close> followed by \<open>xs\<close>.  The bytes of a list of such pairs are
  the encodings of each length and value, in this order.
\<close>

fun runs_from :: "nat \<Rightarrow> 'v \<Rightarrow> 'v list \<Rightarrow> (nat \<times> 'v) list" where
  "runs_from m p [] = [(m, p)]"
| "runs_from m p (x # xs) =
     (if x = p then runs_from (Suc m) p xs else (m, p) # runs_from 1 x xs)"

definition runs :: "'v list \<Rightarrow> (nat \<times> 'v) list" where
  "runs S = (case S of [] \<Rightarrow> [] | x # xs \<Rightarrow> runs_from 1 x xs)"

definition pairs_encoding :: "(nat \<times> 'a::len word) list \<Rightarrow> byte list" where
  "pairs_encoding rs =
     concat (map (\<lambda>(n, v). Base128Int_put_unchecked (of_nat n :: 'a word) [] @
                            Base128Int_put_unchecked v []) rs)"

text \<open>
  The differences of a sequence, the first one taken from \<open>p\<close>.
\<close>

fun deltas :: "'a::len word \<Rightarrow> 'a word list \<Rightarrow> 'a word list" where
  "deltas p [] = []"
| "deltas p (x # xs) = (x - p) # deltas x xs"

section \<open>Sequencing calls\<close>

lemma and_then_simps:
  "and_then (Inl e) f = Inl e"
  "and_then (Inr x) f = f x"
  by (simp_all add: and_then_def)

lemma and_then_eq_Inr:
  "and_then r f = Inr y \<longleftrightarrow> (\<exists>x. r = Inr x \<and> f x = Inr y)"
  by (cases r) (simp_all add: and_then_def)

section \<open>Bytes and bits\<close>

lemma and_0x7F_take_bit: "(w :: 'a::len word) AND 0x7F = take_bit 7 w"
proof -
  have "(0x7F :: 'a word) = mask 7" by (simp add: mask_eq_exp_minus_1)
  then show ?thesis by (simp only: take_bit_eq_mask)
qed

lemma bit_128_int: "bit (128 :: int) n \<longleftrightarrow> n = 7"
proof -
  have "(128 :: int) = 2 ^ 7" by simp
  then have "bit (128 :: int) n \<longleftrightarrow> bit (2 ^ 7 :: int) n" by simp
  also have "\<dots> \<longleftrightarrow> n = 7" by (simp only: bit_exp_iff) auto
  finally show ?thesis .
qed

lemma group_and_0x7F:
  "(ucast (w AND 0x7F :: 'a::len word) :: byte) AND 0x7F = ucast (w AND 0x7F)"
  unfolding and_0x7F_take_bit by (rule bit_word_eqI) (auto simp: bit_simps bit_128_int)

lemma group_or_0x80_and_0x7F:
  "((ucast (w AND 0x7F :: 'a::len word) :: byte) OR 0x80) AND 0x7F = ucast (w AND 0x7F)"
  unfolding and_0x7F_take_bit by (rule bit_word_eqI) (auto simp: bit_simps bit_128_int)

lemma group_and_0x80:
  "(ucast (w AND 0x7F :: 'a::len word) :: byte) AND 0x80 = 0"
  unfolding and_0x7F_take_bit by (rule bit_word_eqI) (auto simp: bit_simps bit_128_int)

lemma group_or_0x80_and_0x80:
  "((ucast (w AND 0x7F :: 'a::len word) :: byte) OR 0x80) AND 0x80 \<noteq> 0"
proof -
  have "bit (((ucast (w AND 0x7F :: 'a::len word) :: byte) OR 0x80) AND 0x80) 7"
    by (simp add: bit_simps bit_128_int)
  then show ?thesis by auto
qed

lemma unat_count: "c < LENGTH('a) \<Longrightarrow> unat (of_nat c :: 'a::len word) = c"
proof -
  assume "c < LENGTH('a)"
  also have "LENGTH('a) < 2 ^ LENGTH('a)" by (rule less_exp)
  finally show ?thesis by (simp add: unat_of_nat)
qed

lemma no_bit_from_31:
  "unat (v :: 'a::len word) < 2 ^ 31 \<Longrightarrow> 31 \<le> n \<Longrightarrow> \<not> bit v n"
proof -
  assume small: "unat v < 2 ^ 31" and n: "31 \<le> n"
  have "(2 :: nat) ^ 31 \<le> 2 ^ n" using n by (intro power_increasing) simp_all
  with small have "unat v < 2 ^ n" by linarith
  then have "\<not> bit (unat v) n" by (simp add: bit_iff_odd)
  then show ?thesis by (simp add: bit_unsigned_iff)
qed

lemma drop7_less:
  "drop_bit 7 (val :: 'a::len word) \<noteq> 0 \<Longrightarrow> unat (drop_bit 7 val) < unat val"
proof -
  assume rest: "drop_bit 7 val \<noteq> 0"
  have "unat (drop_bit 7 val) = drop_bit 7 (unat val)" by (rule unat_drop_bit_eq)
  also have "\<dots> = unat val div 2 ^ 7" by (rule drop_bit_eq_div)
  finally have shifted: "unat (drop_bit 7 val) = unat val div 2 ^ 7" .
  from rest have "unat (drop_bit 7 val) \<noteq> 0" by (simp only: unat_eq_zero not_False_eq_True)
  with shifted have "unat val div 2 ^ 7 \<noteq> 0" by simp
  then have "unat val div 2 ^ 7 < unat val" by (intro div_less_dividend) auto
  with shifted show ?thesis by simp
qed

text \<open>
  One turn of the loop of \<^verbatim>\<open>get\<close> on the group that \<^verbatim>\<open>put\<close> wrote for the count \<open>c\<close>: the
  accumulator holds the low \<open>c\<close> bits of the value before, the low \<open>c + 7\<close> bits after.
\<close>

lemma get_adds_group:
  fixes v :: "'a::len word"
  assumes reach: "LENGTH('a) \<le> 32 \<or> unat v < 2 ^ 31"
    and c: "c < LENGTH('a)" "LENGTH('a) \<le> 32 \<or> c < 31"
  shows "take_bit c v OR
           scast (shl_int (ucast (ucast (drop_bit c v AND 0x7F) :: byte)) (unat (of_nat c :: 'a word)))
         = take_bit (c + 7) v"
proof (cases "LENGTH('a) \<le> 32")
  case True
  then have c32: "c < 32" using c by auto
  have n31: "n = 31" if "n < LENGTH('a)" "31 \<le> n" for n
    using that True by simp
  show ?thesis
    unfolding and_0x7F_take_bit shl_int_def unat_count [OF c(1)] using c32
    by (intro bit_word_eqI) (auto simp: bit_simps min_def dest: n31)
next
  case False
  then have c32: "c < 32" using c by auto
  have high: "\<not> bit v n" if "31 \<le> n" for n
    using that reach False no_bit_from_31 by blast
  show ?thesis
    unfolding and_0x7F_take_bit shl_int_def unat_count [OF c(1)] using c32
    by (intro bit_word_eqI) (auto simp: bit_simps min_def high)
qed

lemma of_nat_word_neq_0:
  "0 < m \<Longrightarrow> m < 2 ^ LENGTH('a) \<Longrightarrow> (of_nat m :: 'a::len word) \<noteq> 0"
proof -
  assume "0 < m" and "m < 2 ^ LENGTH('a)"
  then have "unat (of_nat m :: 'a word) = m" by (simp add: unat_of_nat)
  with \<open>0 < m\<close> show ?thesis by auto
qed

section \<open>The bytes of an encoding\<close>

lemma put_unchecked_last:
  "drop_bit 7 v = 0 \<Longrightarrow> Base128Int_put_unchecked v sink = sink @ [ucast (v AND 0x7F)]"
  by (subst Base128Int_put_unchecked.simps) simp

lemma put_unchecked_more:
  "drop_bit 7 v \<noteq> 0 \<Longrightarrow>
     Base128Int_put_unchecked v sink =
     Base128Int_put_unchecked (drop_bit 7 v) (sink @ [ucast (v AND 0x7F) OR 0x80])"
  by (subst Base128Int_put_unchecked.simps) (simp add: Let_def)

lemma put_unchecked_append:
  "Base128Int_put_unchecked v sink = sink @ Base128Int_put_unchecked v []"
proof (induction "unat v" arbitrary: v sink rule: less_induct)
  case less
  show ?case
  proof (cases "drop_bit 7 v = 0")
    case True
    then show ?thesis by (simp add: put_unchecked_last)
  next
    case False
    let ?b = "ucast (v AND 0x7F) OR 0x80 :: byte"
    have "Base128Int_put_unchecked v sink = Base128Int_put_unchecked (drop_bit 7 v) (sink @ [?b])"
      using False by (rule put_unchecked_more)
    also have "\<dots> = (sink @ [?b]) @ Base128Int_put_unchecked (drop_bit 7 v) []"
      using False by (intro less.hyps drop7_less)
    also have "\<dots> = sink @ Base128Int_put_unchecked (drop_bit 7 v) [?b]"
      using less.hyps [OF drop7_less [OF False], of "[?b]"] by simp
    also have "\<dots> = sink @ Base128Int_put_unchecked v []"
      using False by (simp add: put_unchecked_more)
    finally show ?thesis .
  qed
qed

lemma encoding_last:
  "drop_bit 7 v = 0 \<Longrightarrow> Base128Int_put_unchecked v [] = [ucast (v AND 0x7F)]"
  by (simp add: put_unchecked_last)

lemma encoding_more:
  "drop_bit 7 v \<noteq> 0 \<Longrightarrow>
   Base128Int_put_unchecked v [] =
   (ucast (v AND 0x7F) OR 0x80) # Base128Int_put_unchecked (drop_bit 7 v) []"
  using put_unchecked_append [of "drop_bit 7 v" "[ucast (v AND 0x7F) OR 0x80]"]
  by (simp add: put_unchecked_more)

lemma encoding_length_le:
  "0 < k \<Longrightarrow> drop_bit (7 * k) v = 0 \<Longrightarrow> length (Base128Int_put_unchecked v []) \<le> k"
proof (induction k arbitrary: v)
  case 0
  then show ?case by simp
next
  case (Suc k)
  show ?case
  proof (cases "drop_bit 7 v = 0")
    case True
    then show ?thesis by (simp add: encoding_last)
  next
    case False
    have rest: "drop_bit (7 * k) (drop_bit 7 v) = 0"
      using Suc.prems(2) by (simp add: add.commute)
    with False have "0 < k" by (cases k) auto
    from Suc.IH [OF this rest] False show ?thesis
      by (simp add: encoding_more)
  qed
qed

lemma encoding_length_gt:
  "drop_bit (7 * k) v \<noteq> 0 \<Longrightarrow> k < length (Base128Int_put_unchecked v [])"
proof (induction k arbitrary: v)
  case 0
  show ?case
    by (cases "drop_bit 7 v = 0") (simp_all add: encoding_last encoding_more)
next
  case (Suc k)
  have rest: "drop_bit (7 * k) (drop_bit 7 v) \<noteq> 0"
    using Suc.prems by (simp add: add.commute)
  have "drop_bit 7 v \<noteq> 0"
  proof
    assume "drop_bit 7 v = 0"
    then have "drop_bit (7 * k) (drop_bit 7 v) = 0"
      by (simp only: drop_bit_of_0)
    with rest show False by contradiction
  qed
  with Suc.IH [OF rest] show ?case
    by (simp add: encoding_more)
qed

text \<open>
  A value of width \<open>W\<close> takes at most \<open>\<lceil>W / 7\<rceil>\<close> bytes, and that many from
  \<open>2 ^ (7 * (\<lceil>W / 7\<rceil> - 1))\<close> on.
\<close>

lemma encoding_length_bound:
  fixes v :: "'a::len word"
  shows "length (Base128Int_put_unchecked v []) \<le> (LENGTH('a) + 6) div 7"
proof -
  let ?n = "(LENGTH('a) + 6) div 7"
  have pos: "0 < ?n"
    using len_gt_0 [where 'a = 'a] by presburger
  have "LENGTH('a) \<le> 7 * ?n" by presburger
  then have "drop_bit (7 * ?n) v = 0"
    by (intro bit_word_eqI) (auto simp: bit_simps dest: bit_imp_le_length)
  with pos show ?thesis
    by (rule encoding_length_le)
qed

lemma encoding_length_max:
  fixes v :: "'a::len word"
  assumes "2 ^ (7 * ((LENGTH('a) + 6) div 7 - 1)) \<le> unat v"
  shows "length (Base128Int_put_unchecked v []) = (LENGTH('a) + 6) div 7"
proof -
  let ?n = "(LENGTH('a) + 6) div 7"
  have "unat (drop_bit (7 * (?n - 1)) v) = drop_bit (7 * (?n - 1)) (unat v)"
    by (rule unat_drop_bit_eq)
  also have "\<dots> = unat v div 2 ^ (7 * (?n - 1))"
    by (rule drop_bit_eq_div)
  also have "\<dots> \<noteq> 0"
    using assms by (simp add: div_greater_zero_iff)
  finally have "drop_bit (7 * (?n - 1)) v \<noteq> 0"
    by auto
  then have "?n - 1 < length (Base128Int_put_unchecked v [])"
    by (rule encoding_length_gt)
  with encoding_length_bound [of v] show ?thesis by linarith
qed

lemma encoding_nonempty: "Base128Int_put_unchecked v [] \<noteq> []"
  by (cases "drop_bit 7 v = 0") (simp_all add: encoding_last encoding_more)

lemma pairs_encoding_simps:
  "pairs_encoding [] = []"
  "pairs_encoding ((n, v) # rs) =
     Base128Int_put_unchecked (of_nat n :: 'a word) [] @ Base128Int_put_unchecked v [] @
     pairs_encoding rs"
  for v :: "'a::len word"
  by (simp_all add: pairs_encoding_def)

section \<open>The loop of \<^verbatim>\<open>get\<close>\<close>

lemma get_loop_stop:
  "p < length mem \<Longrightarrow> mem ! p AND 0x80 = 0 \<Longrightarrow>
   get_loop mem p acc cnt =
     Inr (acc OR scast (shl_int (ucast (mem ! p AND 0x7F)) (unat cnt)), p + 1)"
  by (subst get_loop.simps) (simp add: Let_def)

lemma get_loop_continue:
  "p < length mem \<Longrightarrow> mem ! p AND 0x80 \<noteq> 0 \<Longrightarrow>
   get_loop mem p acc cnt =
     get_loop mem (p + 1) (acc OR scast (shl_int (ucast (mem ! p AND 0x7F)) (unat cnt))) (cnt + 7)"
  by (subst get_loop.simps) (simp add: Let_def)

lemma get_loop_stops_at_first_clear:
  assumes "p \<le> k" and "k < length mem" and "mem ! k AND 0x80 = 0"
    and "\<forall>j. p \<le> j \<and> j < k \<longrightarrow> mem ! j AND 0x80 \<noteq> 0"
  shows "\<exists>v. get_loop mem p acc cnt = Inr (v, Suc k)"
  using assms
proof (induction "k - p" arbitrary: p acc cnt)
  case 0
  then have "p = k" by simp
  with 0 show ?case by (simp add: get_loop_stop)
next
  case (Suc d)
  then have lt: "p < k" by simp
  with Suc.prems have set: "mem ! p AND 0x80 \<noteq> 0" and inb: "p < length mem" by auto
  have "\<exists>v. get_loop mem (p + 1)
               (acc OR scast (shl_int (ucast (mem ! p AND 0x7F)) (unat cnt))) (cnt + 7)
          = Inr (v, Suc k)"
    using Suc.hyps(2) Suc.prems lt by (intro Suc.hyps(1)) auto
  then show ?case using inb set by (simp add: get_loop_continue)
qed

lemma nonzero_rest_in_reach:
  fixes v :: "'a::len word"
  assumes "drop_bit k v \<noteq> 0" and "shifts_exactly v"
  shows "k < LENGTH('a)" and "LENGTH('a) \<le> 32 \<or> k < 31"
proof -
  from assms(1) obtain n where "bit (drop_bit k v) n"
    by (auto simp: bit_eq_iff)
  then have b: "bit v (k + n)" by (simp add: bit_simps)
  then have "k + n < LENGTH('a)" by (rule bit_imp_le_length)
  then show "k < LENGTH('a)" by simp
  show "LENGTH('a) \<le> 32 \<or> k < 31"
  proof (cases "LENGTH('a) \<le> 32")
    case False
    with assms(2) have "unat v < 2 ^ 31" by (simp add: shifts_exactly_def)
    with b no_bit_from_31 [of v "k + n"] have "k + n < 31" by force
    then show ?thesis by simp
  qed simp
qed

lemma get_loop_encoding:
  fixes v :: "'a::len word"
  assumes "shifts_exactly v" and "c = 0 \<or> drop_bit c v \<noteq> 0"
  shows "get_loop (pre @ Base128Int_put_unchecked (drop_bit c v) [] @ rest) (length pre)
           (take_bit c v) (of_nat c)
         = Inr (v, length pre + length (Base128Int_put_unchecked (drop_bit c v) []))"
  using assms
proof (induction "unat (drop_bit c v)" arbitrary: c pre rule: less_induct)
  case less
  let ?w = "drop_bit c v"
  let ?b = "ucast (?w AND 0x7F) :: byte"
  have cb: "c < LENGTH('a)" "LENGTH('a) \<le> 32 \<or> c < 31"
    using less.prems nonzero_rest_in_reach [of c v] by auto
  have st: "take_bit c v OR scast (shl_int (ucast ?b) (unat (of_nat c :: 'a word)))
              = take_bit (c + 7) v"
    using less.prems(1) cb unfolding shifts_exactly_def by (rule get_adds_group)
  show ?case
  proof (cases "drop_bit 7 ?w = 0")
    case True
    then have full: "take_bit (c + 7) v = v"
      by (simp add: take_bit_eq_self_iff_drop_bit_eq_0 add.commute)
    have enc: "Base128Int_put_unchecked ?w [] = [?b]"
      using True by (simp add: put_unchecked_last)
    show ?thesis
      unfolding enc
      by (subst get_loop.simps) (simp add: group_and_0x7F group_and_0x80 st full)
  next
    case False
    have enc: "Base128Int_put_unchecked ?w [] =
                 (?b OR 0x80) # Base128Int_put_unchecked (drop_bit (c + 7) v) []"
      using False by (simp add: encoding_more add.commute)
    have nz: "drop_bit (c + 7) v \<noteq> 0" using False by (simp add: add.commute)
    have lt: "unat (drop_bit (c + 7) v) < unat ?w"
      using drop7_less [OF False] by (simp add: add.commute)
    have IH: "get_loop ((pre @ [?b OR 0x80]) @ Base128Int_put_unchecked (drop_bit (c + 7) v) [] @ rest)
                 (length (pre @ [?b OR 0x80])) (take_bit (c + 7) v) (of_nat (c + 7))
              = Inr (v, length (pre @ [?b OR 0x80]) +
                        length (Base128Int_put_unchecked (drop_bit (c + 7) v) []))"
      using lt less.prems(1) nz by (intro less.hyps) simp_all
    show ?thesis
      unfolding enc
      apply (subst get_loop.simps)
      using IH by (simp add: group_or_0x80_and_0x7F group_or_0x80_and_0x80 st)
  qed
qed

text \<open>
  \<^verbatim>\<open>get\<close> on the bytes that the unchecked \<^verbatim>\<open>put\<close> wrote, wherever they lie in the buffer:
  the value comes back, and the iterator behind its last byte, for every value within the
  reach of the shift.
\<close>

lemma get_encoding:
  fixes v :: "'a::len word"
  assumes "shifts_exactly v" and "length pre < e"
  shows "Base128Int_get (pre @ Base128Int_put_unchecked v [] @ rest) (length pre) e
         = Inr (v, length pre + length (Base128Int_put_unchecked v []))"
  using get_loop_encoding [OF assms(1), of 0 pre rest] assms(2)
  by (simp add: Base128Int_get_def)

section \<open>The loop of the bounded \<^verbatim>\<open>put\<close>\<close>

lemma put_loop_last:
  "p < length mem \<Longrightarrow> drop_bit 7 w = 0 \<Longrightarrow>
   put_loop w mem begin end p = Inr (mem[p := ucast (w AND 0x7F)], p + 1)"
  by (subst put_loop.simps) (simp add: Let_def)

lemma put_loop_full:
  "p < length mem \<Longrightarrow> drop_bit 7 w \<noteq> 0 \<Longrightarrow> p + 1 = end \<Longrightarrow>
   put_loop w mem begin end p = Inr (mem[p := ucast (w AND 0x7F) OR 0x80], begin)"
  by (subst put_loop.simps) (simp add: Let_def)

lemma put_loop_more:
  "p < length mem \<Longrightarrow> drop_bit 7 w \<noteq> 0 \<Longrightarrow> p + 1 \<noteq> end \<Longrightarrow>
   put_loop w mem begin end p =
   put_loop (drop_bit 7 w) (mem[p := ucast (w AND 0x7F) OR 0x80]) begin end (p + 1)"
  by (subst put_loop.simps) (simp add: Let_def)

text \<open>
  What the loop leaves, in terms of the bytes of the encoding: all of them when they fit
  between \<open>p\<close> and \<^verbatim>\<open>end\<close>, and as many as fit, with \<^verbatim>\<open>begin\<close> returned, when they do not.
\<close>

lemma put_loop_result:
  assumes "p < end" and "end \<le> length mem"
  shows "put_loop w mem begin end p =
    (if length (Base128Int_put_unchecked w []) \<le> end - p
     then Inr (take p mem @ Base128Int_put_unchecked w [] @
                 drop (p + length (Base128Int_put_unchecked w [])) mem,
               p + length (Base128Int_put_unchecked w []))
     else Inr (take p mem @ take (end - p) (Base128Int_put_unchecked w []) @ drop end mem, begin))"
  using assms
proof (induction "unat w" arbitrary: w mem p rule: less_induct)
  case less
  then have inb: "p < length mem" by simp
  show ?case
  proof (cases "drop_bit 7 w = 0")
    case True
    with inb less.prems show ?thesis
      by (simp add: put_loop_last encoding_last upd_conv_take_nth_drop)
  next
    case False
    let ?b = "ucast (w AND 0x7F) OR 0x80 :: byte"
    let ?m = "mem[p := ?b]"
    let ?e = "Base128Int_put_unchecked (drop_bit 7 w) []"
    have enc: "Base128Int_put_unchecked w [] = ?b # ?e"
      using False by (rule encoding_more)
    have ne: "?e \<noteq> []"
      by (cases "drop_bit 7 (drop_bit 7 w) = 0") (simp_all add: encoding_last encoding_more)
    show ?thesis
    proof (cases "p + 1 = end")
      case True
      have one: "end - p = 1" using True by simp
      from ne have "0 < length ?e" by simp
      then have "\<not> length (Base128Int_put_unchecked w []) \<le> end - p"
        unfolding one enc by simp
      with one show ?thesis
        using inb False True
        by (simp add: put_loop_full enc upd_conv_take_nth_drop)
    next
      case neq: False
      with less.prems have lt: "p + 1 < end" by simp
      have tk: "take (p + 1) ?m = take p mem @ [?b]"
        using inb by (simp add: take_Suc_conv_app_nth)
      have dr: "drop n ?m = drop n mem" if "p < n" for n
        using that by simp
      have IH: "put_loop (drop_bit 7 w) ?m begin end (p + 1) =
        (if length ?e \<le> end - (p + 1)
         then Inr (take (p + 1) ?m @ ?e @ drop (p + 1 + length ?e) ?m, p + 1 + length ?e)
         else Inr (take (p + 1) ?m @ take (end - (p + 1)) ?e @ drop end ?m, begin))"
        using lt less.prems by (intro less.hyps drop7_less False) simp_all
      have tk_enc: "take (end - p) (?b # ?e) = ?b # take (end - (p + 1)) ?e"
        using lt by (simp add: take_Cons')
      have le_iff: "length (?b # ?e) \<le> end - p \<longleftrightarrow> length ?e \<le> end - (p + 1)"
        using lt by auto
      show ?thesis
        using inb False neq lt
        unfolding put_loop_more [OF inb False neq] IH enc tk le_iff tk_enc
        by (simp add: dr)
    qed
  qed
qed

section \<open>The byte streams\<close>

lemma stream_put_appends:
  "Base128StreamWriter_put v d = Inr (d @ Base128Int_put_unchecked v [])"
  using put_unchecked_append [of v d] by (simp add: Base128StreamWriter_put_def)

lemma stream_next_encoding:
  fixes v :: "'a::len word"
  assumes "shifts_exactly v" and "D = pre @ Base128Int_put_unchecked v [] @ rest"
  shows "Base128StreamReader_next \<lparr>rd_data = D, rd_pos = length pre, rd_end = length D\<rparr>
         = Inr (v, \<lparr>rd_data = D, rd_pos = length pre + length (Base128Int_put_unchecked v []),
                      rd_end = length D\<rparr>)"
proof -
  have "0 < length (Base128Int_put_unchecked v [])"
    using encoding_nonempty [of v] by simp
  then have "length pre < length D"
    using assms(2) by simp
  from get_encoding [OF assms(1) this, of rest] assms(2) show ?thesis
    by (simp add: Base128StreamReader_next_def and_then_simps)
qed

lemma next_n_add:
  "next_n nxt (a + b) s =
     and_then (next_n nxt a s)
       (\<lambda>(vs, s'). and_then (next_n nxt b s') (\<lambda>(ws, s''). Inr (vs @ ws, s'')))"
proof (induction a arbitrary: s)
  case 0
  show ?case
    by (cases "next_n nxt b s") (auto simp: and_then_simps)
next
  case (Suc a)
  show ?case
  proof (cases "nxt s")
    case (Inl e)
    then show ?thesis by (simp add: and_then_simps)
  next
    case (Inr r)
    obtain v s' where r: "r = (v, s')" by (cases r)
    show ?thesis
    proof (cases "next_n nxt a s'")
      case (Inl e)
      with Inr r Suc.IH [of s'] show ?thesis by (simp add: and_then_simps)
    next
      case inner: (Inr q)
      obtain vs s'' where q: "q = (vs, s'')" by (cases q)
      show ?thesis
      proof (cases "next_n nxt b s''")
        case (Inl e)
        with Inr r inner q Suc.IH [of s'] show ?thesis by (simp add: and_then_simps)
      next
        case last: (Inr z)
        obtain ws s3 where "z = (ws, s3)" by (cases z)
        with Inr r inner q last Suc.IH [of s'] show ?thesis by (simp add: and_then_simps)
      qed
    qed
  qed
qed

section \<open>Decoding what \<^verbatim>\<open>put\<close> encoded\<close>

text \<open>
  \<^verbatim>\<open>get\<close> returns what the unchecked \<^verbatim>\<open>put\<close> encoded for every value within the reach of
  the shift, so for every value of at most 32 bits.
\<close>

lemma get_of_put_in_reach:
  fixes v :: "'a::len word"
  assumes "shifts_exactly v"
  shows "Base128Int_get (Base128Int_put_unchecked v []) 0 (length (Base128Int_put_unchecked v []))
         = Inr (v, length (Base128Int_put_unchecked v []))"
  using get_encoding [OF assms, of "[]" "length (Base128Int_put_unchecked v [])" "[]"]
    encoding_nonempty [of v]
  by simp

lemma get_of_put_upto_32_bits:
  fixes v :: "'a::len word"
  assumes "LENGTH('a) \<le> 32"
  shows "Base128Int_get (Base128Int_put_unchecked v []) 0 (length (Base128Int_put_unchecked v []))
         = Inr (v, length (Base128Int_put_unchecked v []))"
  using assms by (intro get_of_put_in_reach) (simp add: shifts_exactly_def)

text \<open>
  C3 asks that \<^verbatim>\<open>get\<close> returns the value that \<^verbatim>\<open>put\<close> encoded, for every value of every
  width.  With \<^verbatim>\<open>TVal = uint64_t\<close> and the value \<open>2^31\<close> it does not: \<^verbatim>\<open>put\<close> into an
  inserter writes the five bytes 80 80 80 80 08; \<^verbatim>\<open>get\<close> shifts the last group as an
  \<^verbatim>\<open>int\<close>, \<^verbatim>\<open>8 << 28\<close>, which is \<^verbatim>\<open>INT_MIN\<close>, and the conversion to \<^verbatim>\<open>uint64_t\<close> extends the
  sign: the value decoded is \<^verbatim>\<open>0xFFFFFFFF80000000\<close>.
\<close>

theorem C3_get_of_put_uint64_at_2_31:
  "Base128Int_put_unchecked (2147483648 :: 64 word) [] = [0x80, 0x80, 0x80, 0x80, 0x08] \<and>
   Base128Int_get [0x80, 0x80, 0x80, 0x80, 0x08] 0 5 = Inr (0xFFFFFFFF80000000 :: 64 word, 5)"
  by code_simp

section \<open>Where \<^verbatim>\<open>get\<close> stops\<close>

text \<open>
  \<^verbatim>\<open>get\<close> reads on behind \<^verbatim>\<open>end\<close> when no byte of the range ends the value.
\<close>

lemma get_runs_past_end:
  "Base128Int_get [0x80, 0x00] 0 1 = Inr (0 :: 32 word, 2)"
  by code_simp

text \<open>
  C10: when a byte of the range \<^verbatim>\<open>[begin, end)\<close> has its high bit clear, and \<open>k\<close> is the
  first such byte, \<^verbatim>\<open>get\<close> returns the iterator \<open>k + 1\<close>, which is not behind \<^verbatim>\<open>end\<close>.
  \<^verbatim>\<open>get\<close> does not compare with \<^verbatim>\<open>end\<close> after its assertion: with any other end behind
  \<^verbatim>\<open>begin\<close> it returns the same.
\<close>

theorem C10_get_stops_at_first_terminator:
  assumes "begin \<le> k" and "k < end" and "end \<le> length mem"
    and "mem ! k AND 0x80 = 0"
    and "\<forall>j. begin \<le> j \<and> j < k \<longrightarrow> mem ! j AND 0x80 \<noteq> 0"
  shows "(\<exists>v :: 'a::len word. Base128Int_get mem begin end = Inr (v, Suc k)) \<and>
         Suc k \<le> end \<and>
         (\<forall>e. begin < e \<longrightarrow>
            (Base128Int_get mem begin e :: error + ('a word \<times> nat)) = Base128Int_get mem begin end)"
proof (intro conjI allI impI)
  from assms have "k < length mem" by simp
  from get_loop_stops_at_first_clear [OF assms(1) this assms(4) assms(5)] assms(1,2)
  show "\<exists>v :: 'a word. Base128Int_get mem begin end = Inr (v, Suc k)"
    by (simp add: Base128Int_get_def)
  from assms(2) show "Suc k \<le> end" by simp
  fix e
  assume "begin < e"
  with assms(1,2)
  show "(Base128Int_get mem begin e :: error + ('a word \<times> nat)) = Base128Int_get mem begin end"
    by (simp add: Base128Int_get_def)
qed

theorem C10_get_stops_at_first_terminator_witness:
  "(\<exists>v :: 32 word. Base128Int_get [0x05, 0xAC, 0x02, 0x07] 1 4 = Inr (v, 3)) \<and>
   (3 :: nat) \<le> 4 \<and>
   (Base128Int_get [0x05, 0xAC, 0x02, 0x07] 1 3 :: error + (32 word \<times> nat))
     = Base128Int_get [0x05, 0xAC, 0x02, 0x07] 1 4"
proof -
  have h: "(1 :: nat) \<le> 2" "(2 :: nat) < 4" "(4 :: nat) \<le> length [0x05, 0xAC, 0x02, 0x07 :: byte]"
    "[0x05, 0xAC, 0x02, 0x07 :: byte] ! 2 AND 0x80 = 0"
    "\<forall>j. (1 :: nat) \<le> j \<and> j < 2 \<longrightarrow> [0x05, 0xAC, 0x02, 0x07 :: byte] ! j AND 0x80 \<noteq> 0"
    by (simp_all add: less_Suc_eq)
  from C10_get_stops_at_first_terminator [OF h, where 'a = 32]
  have "(\<exists>v :: 32 word. Base128Int_get [0x05, 0xAC, 0x02, 0x07] 1 4 = Inr (v, Suc 2)) \<and>
        Suc 2 \<le> (4 :: nat) \<and>
        ((1 :: nat) < 3 \<longrightarrow>
           (Base128Int_get [0x05, 0xAC, 0x02, 0x07] 1 3 :: error + (32 word \<times> nat))
             = Base128Int_get [0x05, 0xAC, 0x02, 0x07] 1 4)"
    by blast
  then show ?thesis
    by (simp add: eval_nat_numeral)
qed

section \<open>The bounded \<^verbatim>\<open>put\<close> on an empty range\<close>

text \<open>
  C9: called with \<^verbatim>\<open>begin >= end\<close>, the bounded \<^verbatim>\<open>Base128Int::put\<close> returns \<^verbatim>\<open>begin\<close> at once
  and leaves the buffer as it is, whatever the value.
\<close>

theorem C9_put_empty_range:
  "end \<le> begin \<Longrightarrow> Base128Int_put v mem begin end = Inr (mem, begin)"
  by (simp add: Base128Int_put_def)

theorem C9_put_empty_range_witness:
  "(3 :: nat) \<le> 5 \<and>
   Base128Int_put (300 :: 32 word) [1, 2, 3, 4, 5, 6] 5 3 = Inr ([1, 2, 3, 4, 5, 6], 5)"
  using C9_put_empty_range [of 3 5 "300 :: 32 word" "[1, 2, 3, 4, 5, 6]"] by simp

section \<open>The bounded \<^verbatim>\<open>put\<close> on a range that is too small\<close>

text \<open>
  C1 as stated: when the range is too small for the encoding, the bounded \<^verbatim>\<open>put\<close> returns
  \<^verbatim>\<open>begin\<close> and the buffer is as it was.  With the value 300, which takes two bytes, and a
  range of one byte that holds 0, \<^verbatim>\<open>put\<close> returns \<^verbatim>\<open>begin\<close> and the byte is \<^verbatim>\<open>0xAC\<close>.
\<close>

theorem C1_put_too_small_counterexample:
  "(1 :: nat) - 0 < length (Base128Int_put_unchecked (300 :: 32 word) []) \<and>
   Base128Int_put (300 :: 32 word) [0] 0 1 = Inr ([0xAC], 0) \<and>
   [0xAC] \<noteq> [0 :: byte]"
  by code_simp

text \<open>
  C1, amended: when the range \<^verbatim>\<open>[begin, end)\<close> is too small for the encoding, the bounded
  \<^verbatim>\<open>put\<close> returns \<^verbatim>\<open>begin\<close>; the bytes before \<^verbatim>\<open>begin\<close> and from \<^verbatim>\<open>end\<close> on are as they
  were, and the range holds the first \<^verbatim>\<open>end - begin\<close> bytes of the encoding.
\<close>

theorem C1_put_too_small_returns_begin:
  assumes "begin \<le> end" and "end \<le> length mem"
    and "end - begin < length (Base128Int_put_unchecked v [])"
  shows "Base128Int_put v mem begin end =
           Inr (take begin mem @ take (end - begin) (Base128Int_put_unchecked v []) @ drop end mem,
                begin)"
proof (cases "begin = end")
  case True
  then show ?thesis by (simp add: Base128Int_put_def)
next
  case False
  with assms(1) have "begin < end" by simp
  with assms(2,3) show ?thesis
    by (simp add: Base128Int_put_def put_loop_result)
qed

theorem C1_put_too_small_returns_begin_witness:
  "(1 :: nat) \<le> 3 \<and> (3 :: nat) \<le> length [9, 8, 7, 6 :: byte] \<and>
   (3 :: nat) - 1 < length (Base128Int_put_unchecked (4294967295 :: 32 word) []) \<and>
   Base128Int_put (4294967295 :: 32 word) [9, 8, 7, 6] 1 3 = Inr ([9, 0xFF, 0xFF, 6], 1)"
proof -
  have enc: "Base128Int_put_unchecked (4294967295 :: 32 word) [] = [0xFF, 0xFF, 0xFF, 0xFF, 0x0F]"
    by code_simp
  have h: "(1 :: nat) \<le> 3" "(3 :: nat) \<le> length [9, 8, 7, 6 :: byte]"
    "(3 :: nat) - 1 < length (Base128Int_put_unchecked (4294967295 :: 32 word) [])"
    by (simp_all add: enc)
  from C1_put_too_small_returns_begin [OF h] h show ?thesis
    by (simp add: enc)
qed

section \<open>The bounded \<^verbatim>\<open>put\<close> on a range of the greatest length\<close>

text \<open>
  C7: a value of width \<open>W\<close> that takes the greatest number of groups, \<open>\<lceil>W / 7\<rceil>\<close>, that is
  a value from \<open>2 ^ (7 * (\<lceil>W / 7\<rceil> - 1))\<close> on, is written by the bounded \<^verbatim>\<open>put\<close> into a range
  of \<open>\<lceil>W / 7\<rceil>\<close> bytes: the range holds the encoding and \<^verbatim>\<open>put\<close> returns the end of the
  range, the iterator behind the last byte written.
\<close>

theorem C7_put_max_groups_exact_fit:
  fixes v :: "'a::len word"
  assumes "2 ^ (7 * ((LENGTH('a) + 6) div 7 - 1)) \<le> unat v"
    and "begin + (LENGTH('a) + 6) div 7 \<le> length mem"
  shows "length (Base128Int_put_unchecked v []) = (LENGTH('a) + 6) div 7 \<and>
         Base128Int_put v mem begin (begin + (LENGTH('a) + 6) div 7) =
           Inr (take begin mem @ Base128Int_put_unchecked v [] @
                  drop (begin + (LENGTH('a) + 6) div 7) mem,
                begin + (LENGTH('a) + 6) div 7)"
proof -
  let ?n = "(LENGTH('a) + 6) div 7"
  have len: "length (Base128Int_put_unchecked v []) = ?n"
    using assms(1) by (rule encoding_length_max)
  have pos: "0 < ?n"
    using len_gt_0 [where 'a = 'a] by presburger
  then have "begin < begin + ?n" by simp
  with assms(2) len show ?thesis
    by (simp add: Base128Int_put_def put_loop_result)
qed

theorem C7_put_max_groups_exact_fit_witness:
  "(2 :: nat) ^ (7 * ((LENGTH(32) + 6) div 7 - 1)) \<le> unat (4294967295 :: 32 word) \<and>
   1 + (LENGTH(32) + 6) div 7 \<le> length [9, 8, 7, 6, 5, 4, 3 :: byte] \<and>
   Base128Int_put (4294967295 :: 32 word) [9, 8, 7, 6, 5, 4, 3] 1 6
     = Inr ([9, 0xFF, 0xFF, 0xFF, 0xFF, 0x0F, 3], 6)"
proof -
  have enc: "Base128Int_put_unchecked (4294967295 :: 32 word) [] = [0xFF, 0xFF, 0xFF, 0xFF, 0x0F]"
    by code_simp
  have h: "(2 :: nat) ^ (7 * ((LENGTH(32) + 6) div 7 - 1)) \<le> unat (4294967295 :: 32 word)"
    "1 + (LENGTH(32) + 6) div 7 \<le> length [9, 8, 7, 6, 5, 4, 3 :: byte]"
    by simp_all
  from C7_put_max_groups_exact_fit [OF h] h show ?thesis
    by (simp add: enc)
qed

section \<open>The precondition of \<^verbatim>\<open>DeltaStreamWriter::put\<close>\<close>

lemma delta_put_prev:
  assumes "DeltaStreamWriter_put stream_put v w = Inr w'"
  shows "dw_prev w' = v"
proof (cases "dw_prev w \<le> v")
  case True
  with assms obtain s where "w' = w\<lparr>dw_stream := s, dw_prev := v\<rparr>"
    by (auto simp: DeltaStreamWriter_put_def Let_def and_then_eq_Inr)
  then show ?thesis by simp
next
  case False
  with assms show ?thesis by (simp add: DeltaStreamWriter_put_def)
qed

lemma delta_put_below_prev:
  "v < dw_prev w \<Longrightarrow> DeltaStreamWriter_put stream_put v w = Inl AssertionFailed"
  by (simp add: DeltaStreamWriter_put_def not_le [symmetric])

lemma three_less_five:
  assumes "3 \<le> LENGTH('a::len)"
  shows "(3 :: 'a word) < 5"
proof -
  have "(2 :: nat) ^ 3 \<le> 2 ^ LENGTH('a)"
    using assms by (intro power_increasing) simp_all
  then have big: "(8 :: nat) \<le> 2 ^ LENGTH('a)" by simp
  have "unat (3 :: 'a word) = 3 mod 2 ^ LENGTH('a)"
    by (simp only: unat_numeral)
  with big have u3: "unat (3 :: 'a word) = 3" by simp
  have "unat (5 :: 'a word) = 5 mod 2 ^ LENGTH('a)"
    by (simp only: unat_numeral)
  with big have u5: "unat (5 :: 'a word) = 5" by simp
  from u3 u5 show ?thesis by (simp add: word_less_nat_alt)
qed

text \<open>
  C6: once 5 has been put to a \<^verbatim>\<open>DeltaStreamWriter\<close>, a following \<^verbatim>\<open>put(3)\<close> fails the
  assertion \<^verbatim>\<open>value >= prev_\<close>: the call ends there and the wrapped stream is not written.
  The value type has at least three bits, so that 3 and 5 are different values of it.
\<close>

theorem C6_delta_put_rejects_3_after_5:
  fixes w w' :: "('s, 'a::len word) DeltaStreamWriter"
  assumes "3 \<le> LENGTH('a)"
    and "DeltaStreamWriter_put stream_put 5 w = Inr w'"
  shows "DeltaStreamWriter_put stream_put 3 w' = Inl AssertionFailed"
proof -
  from assms(2) have "dw_prev w' = 5" by (rule delta_put_prev)
  with three_less_five [OF assms(1)] have "3 < dw_prev w'" by (simp only:)
  then show ?thesis by (rule delta_put_below_prev)
qed

theorem C6_delta_put_rejects_3_after_5_witness:
  "(3 :: nat) \<le> LENGTH(64) \<and>
   DeltaStreamWriter_put Base128StreamWriter_put (5 :: 64 word) (DeltaStreamWriter_init [])
     = Inr \<lparr>dw_stream = [5], dw_prev = 5\<rparr> \<and>
   DeltaStreamWriter_put Base128StreamWriter_put (3 :: 64 word) \<lparr>dw_stream = [5], dw_prev = 5\<rparr>
     = Inl AssertionFailed"
proof -
  have len: "(3 :: nat) \<le> LENGTH(64)" by simp
  have first: "DeltaStreamWriter_put Base128StreamWriter_put (5 :: 64 word) (DeltaStreamWriter_init [])
                 = Inr \<lparr>dw_stream = [5], dw_prev = 5\<rparr>"
    by code_simp
  from len first C6_delta_put_rejects_3_after_5 [OF len first] show ?thesis by simp
qed

section \<open>\<^verbatim>\<open>DeltaStreamWriter\<close> and \<^verbatim>\<open>DeltaStreamReader\<close> on a sorted sequence\<close>

text \<open>
  The reader returns the sorted sequence that the writer was fed when every difference is
  within the reach of the shift, so for every sorted sequence of values of at most 32 bits.
\<close>

lemma delta_writer_bytes:
  fixes p :: "'a::len word"
  assumes "sorted (p # S)"
  shows "put_all (DeltaStreamWriter_put Base128StreamWriter_put) S \<lparr>dw_stream = d, dw_prev = p\<rparr>
         = Inr \<lparr>dw_stream = d @ concat (map (\<lambda>v. Base128Int_put_unchecked v []) (deltas p S)),
                 dw_prev = last (p # S)\<rparr>"
  using assms
proof (induction S arbitrary: p d)
  case Nil
  show ?case by simp
next
  case (Cons x xs)
  then have "p \<le> x" and "sorted (x # xs)" by simp_all
  from Cons.IH [OF this(2), of "d @ Base128Int_put_unchecked (x - p) []"] \<open>p \<le> x\<close>
  show ?case
    by (simp add: DeltaStreamWriter_put_def and_then_simps stream_put_appends)
qed

lemma delta_reader_values:
  fixes p :: "'a::len word"
  assumes "\<forall>v \<in> set (deltas p S). shifts_exactly v"
    and "D = pre @ concat (map (\<lambda>v. Base128Int_put_unchecked v []) (deltas p S))"
  shows "\<exists>r. next_n (DeltaStreamReader_next Base128StreamReader_next) (length S)
           \<lparr>dr_stream = \<lparr>rd_data = D, rd_pos = length pre, rd_end = length D\<rparr>, dr_prev = p\<rparr>
         = Inr (S, r)"
  using assms
proof (induction S arbitrary: p pre)
  case Nil
  show ?case by simp
next
  case (Cons x xs)
  let ?e = "Base128Int_put_unchecked (x - p) []"
  from Cons.prems have reach: "shifts_exactly (x - p)"
    and rest: "\<forall>v \<in> set (deltas x xs). shifts_exactly v"
    and D: "D = pre @ ?e @ concat (map (\<lambda>v. Base128Int_put_unchecked v []) (deltas x xs))"
    by simp_all
  have D': "D = (pre @ ?e) @ concat (map (\<lambda>v. Base128Int_put_unchecked v []) (deltas x xs))"
    using D by simp
  have first: "DeltaStreamReader_next Base128StreamReader_next
           \<lparr>dr_stream = \<lparr>rd_data = D, rd_pos = length pre, rd_end = length D\<rparr>, dr_prev = p\<rparr>
        = Inr (x, \<lparr>dr_stream = \<lparr>rd_data = D, rd_pos = length pre + length ?e, rd_end = length D\<rparr>,
                   dr_prev = x\<rparr>)"
    using stream_next_encoding [OF reach D]
    by (simp add: DeltaStreamReader_next_def and_then_simps)
  from Cons.IH [OF rest D'] obtain r where
    "next_n (DeltaStreamReader_next Base128StreamReader_next) (length xs)
       \<lparr>dr_stream = \<lparr>rd_data = D, rd_pos = length pre + length ?e, rd_end = length D\<rparr>,
        dr_prev = x\<rparr>
     = Inr (xs, r)"
    by auto
  with first show ?case
    by (simp add: and_then_simps)
qed

lemma delta_roundtrip_in_reach:
  fixes S :: "'a::len word list"
  assumes "sorted S" and "\<forall>v \<in> set (deltas 0 S). shifts_exactly v"
  shows "and_then (delta_encode S) (delta_decode (length S)) = Inr S"
proof -
  let ?D = "concat (map (\<lambda>v. Base128Int_put_unchecked v []) (deltas 0 S))"
  from assms(1) have "sorted (0 # S)" by simp
  from delta_writer_bytes [OF this, of "[]"] have enc: "delta_encode S = Inr ?D"
    by (simp add: delta_encode_def DeltaStreamWriter_init_def and_then_simps)
  from delta_reader_values [OF assms(2), of ?D "[]"] obtain r where
    "next_n (DeltaStreamReader_next Base128StreamReader_next) (length S)
       \<lparr>dr_stream = \<lparr>rd_data = ?D, rd_pos = 0, rd_end = length ?D\<rparr>, dr_prev = 0\<rparr>
     = Inr (S, r)"
    by auto
  then show ?thesis
    by (simp add: enc delta_decode_def DeltaStreamReader_init_def Base128StreamReader_init_def
        and_then_simps)
qed

lemma delta_roundtrip_upto_32_bits:
  fixes S :: "'a::len word list"
  assumes "LENGTH('a) \<le> 32" and "sorted S"
  shows "and_then (delta_encode S) (delta_decode (length S)) = Inr S"
  using assms by (intro delta_roundtrip_in_reach) (simp_all add: shifts_exactly_def)

text \<open>
  C4 asks that a \<^verbatim>\<open>DeltaStreamReader\<close> returns the non-decreasing sequence that a
  \<^verbatim>\<open>DeltaStreamWriter\<close> was fed.  With \<^verbatim>\<open>TVal = uint64_t\<close> and the sequence of the one value
  \<open>2^31\<close> the writer puts the delta \<open>2^31\<close>, the bytes 80 80 80 80 08, and the reader gets
  \<^verbatim>\<open>0xFFFFFFFF80000000\<close> from \<^verbatim>\<open>Base128Int::get\<close>, whose \<^verbatim>\<open>int\<close> shift yields \<^verbatim>\<open>INT_MIN\<close>
  for the last group.
\<close>

theorem C4_delta_uint64_at_2_31:
  "delta_encode [2147483648 :: 64 word] = Inr [0x80, 0x80, 0x80, 0x80, 0x08] \<and>
   delta_decode 1 [0x80, 0x80, 0x80, 0x80, 0x08] = Inr [0xFFFFFFFF80000000 :: 64 word]"
  by code_simp

section \<open>\<^verbatim>\<open>[1,1,1,2,2,3]\<close> through \<^verbatim>\<open>RLEStreamWriter\<close>\<close>

lemma rle_112223_w64:
  "rle_written [1, 1, 1, 2, 2, 3 :: 64 word] = Inr [3, 1, 2, 2, 1, 3]"
  "rle_encode [1, 1, 1, 2, 2, 3 :: 64 word] = Inr [3, 1, 2, 2, 1, 3]"
  "rle_decode 6 [3, 1, 2, 2, 1, 3] = Inr [1, 1, 1, 2, 2, 3 :: 64 word]"
  by code_simp+

lemma rle_112223_w32:
  "rle_written [1, 1, 1, 2, 2, 3 :: 32 word] = Inr [3, 1, 2, 2, 1, 3]"
  "rle_encode [1, 1, 1, 2, 2, 3 :: 32 word] = Inr [3, 1, 2, 2, 1, 3]"
  "rle_decode 6 [3, 1, 2, 2, 1, 3] = Inr [1, 1, 1, 2, 2, 3 :: 32 word]"
  by code_simp+

lemma rle_112223_w16:
  "rle_written [1, 1, 1, 2, 2, 3 :: 16 word] = Inr [3, 1, 2, 2, 1, 3]"
  "rle_encode [1, 1, 1, 2, 2, 3 :: 16 word] = Inr [3, 1, 2, 2, 1, 3]"
  "rle_decode 6 [3, 1, 2, 2, 1, 3] = Inr [1, 1, 1, 2, 2, 3 :: 16 word]"
  by code_simp+

lemma rle_112223_w8:
  "rle_written [1, 1, 1, 2, 2, 3 :: 8 word] = Inr [3, 1, 2, 2, 1, 3]"
  "rle_encode [1, 1, 1, 2, 2, 3 :: 8 word] = Inr [3, 1, 2, 2, 1, 3]"
  "rle_decode 6 [3, 1, 2, 2, 1, 3] = Inr [1, 1, 1, 2, 2, 3 :: 8 word]"
  by code_simp+

text \<open>
  C8: putting \<^verbatim>\<open>[1,1,1,2,2,3]\<close> through an \<^verbatim>\<open>RLEStreamWriter\<close> and closing it writes to the
  wrapped stream the values 3, 1, 2, 2, 1, 3, that is the pairs (3,1), (2,2), (1,3), each
  with the count first; over a \<^verbatim>\<open>Base128StreamWriter\<close> these are the bytes 3, 1, 2, 2, 1, 3,
  and the \<^verbatim>\<open>RLEStreamReader\<close> over a \<^verbatim>\<open>Base128StreamReader\<close> of these bytes returns
  \<^verbatim>\<open>[1,1,1,2,2,3]\<close> in six calls of \<^verbatim>\<open>next\<close>.  This holds for values of 64, 32, 16 and 8 bits.
\<close>

theorem C8_rle_pairs_of_1_1_1_2_2_3:
  "rle_written [1, 1, 1, 2, 2, 3 :: 64 word] = Inr [3, 1, 2, 2, 1, 3] \<and>
   rle_encode [1, 1, 1, 2, 2, 3 :: 64 word] = Inr [3, 1, 2, 2, 1, 3] \<and>
   rle_decode 6 [3, 1, 2, 2, 1, 3] = Inr [1, 1, 1, 2, 2, 3 :: 64 word] \<and>
   rle_written [1, 1, 1, 2, 2, 3 :: 32 word] = Inr [3, 1, 2, 2, 1, 3] \<and>
   rle_encode [1, 1, 1, 2, 2, 3 :: 32 word] = Inr [3, 1, 2, 2, 1, 3] \<and>
   rle_decode 6 [3, 1, 2, 2, 1, 3] = Inr [1, 1, 1, 2, 2, 3 :: 32 word] \<and>
   rle_written [1, 1, 1, 2, 2, 3 :: 16 word] = Inr [3, 1, 2, 2, 1, 3] \<and>
   rle_encode [1, 1, 1, 2, 2, 3 :: 16 word] = Inr [3, 1, 2, 2, 1, 3] \<and>
   rle_decode 6 [3, 1, 2, 2, 1, 3] = Inr [1, 1, 1, 2, 2, 3 :: 16 word] \<and>
   rle_written [1, 1, 1, 2, 2, 3 :: 8 word] = Inr [3, 1, 2, 2, 1, 3] \<and>
   rle_encode [1, 1, 1, 2, 2, 3 :: 8 word] = Inr [3, 1, 2, 2, 1, 3] \<and>
   rle_decode 6 [3, 1, 2, 2, 1, 3] = Inr [1, 1, 1, 2, 2, 3 :: 8 word]"
  by (intro conjI rle_112223_w64 rle_112223_w32 rle_112223_w16 rle_112223_w8)

section \<open>\<^verbatim>\<open>RLEStreamWriter\<close> and \<^verbatim>\<open>RLEStreamReader\<close> on any sequence\<close>

text \<open>
  \<open>runs\<close> yields the runs of a sequence: put end to end they are the sequence, none is
  empty, and two that follow each other have different values.
\<close>

lemma runs_from_expand:
  "concat (map (\<lambda>(n, v). replicate n v) (runs_from m p xs)) = replicate m p @ xs"
  by (induction xs arbitrary: m p) (simp_all add: replicate_app_Cons_same)

lemma runs_expand: "concat (map (\<lambda>(n, v). replicate n v) (runs S)) = S"
  by (cases S) (simp_all add: runs_def runs_from_expand)

lemma runs_from_positive:
  "0 < m \<Longrightarrow> (n, v) \<in> set (runs_from m p xs) \<Longrightarrow> 0 < n"
  by (induction xs arbitrary: m p) (auto split: if_splits)

lemma runs_positive: "(n, v) \<in> set (runs S) \<Longrightarrow> 0 < n"
  by (cases S) (auto simp: runs_def dest: runs_from_positive [rotated])

lemma runs_from_head: "\<exists>n rs. runs_from m p xs = (n, p) # rs"
  by (induction xs arbitrary: m) auto

lemma runs_from_maximal: "distinct_adj (map snd (runs_from m p xs))"
proof (induction xs arbitrary: m p)
  case Nil
  show ?case by simp
next
  case (Cons x xs)
  obtain n rs where "runs_from 1 x xs = (n, x) # rs"
    using runs_from_head [of 1 x xs] by auto
  with Cons [of 1 x] Cons [of "Suc m" p] show ?case
    by auto
qed

lemma runs_maximal: "distinct_adj (map snd (runs S))"
  by (cases S) (simp_all add: runs_def runs_from_maximal)

lemma runs_example: "runs [1, 1, 1, 2, 2, 3 :: nat] = [(3, 1), (2, 2), (1, 3)]"
  by (simp add: runs_def)

lemma rle_put_same:
  "RLEStreamWriter_put sp p \<lparr>rw_stream = d, rw_prev = p, rw_reps = r\<rparr>
     = Inr \<lparr>rw_stream = d, rw_prev = p, rw_reps = r + 1\<rparr>"
  by (simp add: RLEStreamWriter_put_def and_then_simps)

lemma rle_put_other:
  "x \<noteq> p \<Longrightarrow> r \<noteq> 0 \<Longrightarrow>
   RLEStreamWriter_put Base128StreamWriter_put x \<lparr>rw_stream = d, rw_prev = p, rw_reps = r\<rparr>
     = Inr \<lparr>rw_stream = d @ Base128Int_put_unchecked r [] @ Base128Int_put_unchecked p [],
             rw_prev = x, rw_reps = 1\<rparr>"
  by (simp add: RLEStreamWriter_put_def and_then_simps stream_put_appends)

lemma rle_put_first:
  "RLEStreamWriter_put sp x (RLEStreamWriter_init d)
     = Inr \<lparr>rw_stream = d, rw_prev = x, rw_reps = 1\<rparr>"
  by (simp add: RLEStreamWriter_put_def RLEStreamWriter_init_def and_then_simps)

lemma rle_close_bytes:
  "RLEStreamWriter_close Base128StreamWriter_put \<lparr>rw_stream = d, rw_prev = p, rw_reps = r\<rparr>
     = Inr \<lparr>rw_stream = d @ Base128Int_put_unchecked r [] @ Base128Int_put_unchecked p [],
             rw_prev = p, rw_reps = r\<rparr>"
  by (simp add: RLEStreamWriter_close_def and_then_simps stream_put_appends)

lemma rle_writer_runs:
  fixes p :: "'a::len word"
  assumes "0 < m" and "\<forall>(n, v) \<in> set (runs_from m p xs). n < 2 ^ LENGTH('a)"
  shows "\<exists>w. and_then (put_all (RLEStreamWriter_put Base128StreamWriter_put) xs
                          \<lparr>rw_stream = d, rw_prev = p, rw_reps = of_nat m\<rparr>)
                (RLEStreamWriter_close Base128StreamWriter_put) = Inr w \<and>
             rw_stream w = d @ pairs_encoding (runs_from m p xs)"
  using assms
proof (induction xs arbitrary: m p d)
  case Nil
  then show ?case
    by (simp add: and_then_simps rle_close_bytes pairs_encoding_simps)
next
  case (Cons x xs)
  show ?case
  proof (cases "x = p")
    case True
    with Cons.prems have "\<forall>(n, v) \<in> set (runs_from (Suc m) p xs). n < 2 ^ LENGTH('a)"
      by simp
    from Cons.IH [OF _ this, of d] True show ?thesis
      by (simp add: and_then_simps rle_put_same add.commute)
  next
    case False
    with Cons.prems have m: "m < 2 ^ LENGTH('a)"
      and rest: "\<forall>(n, v) \<in> set (runs_from 1 x xs). n < 2 ^ LENGTH('a)"
      by simp_all
    from Cons.prems(1) m have nz: "(of_nat m :: 'a word) \<noteq> 0"
      by (rule of_nat_word_neq_0)
    from Cons.IH [OF _ rest, of "d @ Base128Int_put_unchecked (of_nat m :: 'a word) [] @
                                   Base128Int_put_unchecked p []"]
      False nz show ?thesis
      by (simp add: and_then_simps rle_put_other pairs_encoding_simps)
  qed
qed

lemma rle_next_pending:
  fixes v :: "'a::len word"
  assumes "k < 2 ^ LENGTH('a)"
  shows "next_n (RLEStreamReader_next sn) k \<lparr>rr_stream = s, rr_prev = v, rr_reps = of_nat k\<rparr>
         = Inr (replicate k v, \<lparr>rr_stream = s, rr_prev = v, rr_reps = 0\<rparr>)"
  using assms
proof (induction k)
  case 0
  show ?case by simp
next
  case (Suc k)
  then have nz: "(of_nat (Suc k) :: 'a word) \<noteq> 0"
    by (intro of_nat_word_neq_0) simp_all
  have step: "RLEStreamReader_next sn \<lparr>rr_stream = s, rr_prev = v, rr_reps = of_nat (Suc k)\<rparr>
              = Inr (v, \<lparr>rr_stream = s, rr_prev = v, rr_reps = of_nat k\<rparr>)"
    using nz by (simp add: RLEStreamReader_next_def and_then_simps)
  from Suc have "k < 2 ^ LENGTH('a)" by simp
  from Suc.IH [OF this] show ?case
    by (simp only: next_n.simps step and_then_simps prod.case replicate_Suc)
qed

lemma rle_next_pair:
  fixes v :: "'a::len word"
  assumes "0 < n" and "n < 2 ^ LENGTH('a)"
    and "shifts_exactly (of_nat n :: 'a word)" and "shifts_exactly v"
    and "D = pre @ Base128Int_put_unchecked (of_nat n :: 'a word) [] @
               Base128Int_put_unchecked v [] @ rest"
  shows "next_n (RLEStreamReader_next Base128StreamReader_next) n
           \<lparr>rr_stream = \<lparr>rd_data = D, rd_pos = length pre, rd_end = length D\<rparr>,
            rr_prev = q, rr_reps = 0\<rparr>
         = Inr (replicate n v,
                \<lparr>rr_stream = \<lparr>rd_data = D,
                               rd_pos = length pre +
                                 length (Base128Int_put_unchecked (of_nat n :: 'a word) []) +
                                 length (Base128Int_put_unchecked v []),
                               rd_end = length D\<rparr>,
                 rr_prev = v, rr_reps = 0\<rparr>)"
proof -
  let ?en = "Base128Int_put_unchecked (of_nat n :: 'a word) []"
  let ?ev = "Base128Int_put_unchecked v []"
  let ?s1 = "\<lparr>rd_data = D, rd_pos = length pre + length ?en, rd_end = length D\<rparr>"
  let ?s2 = "\<lparr>rd_data = D, rd_pos = length pre + length ?en + length ?ev, rd_end = length D\<rparr>"
  obtain k where n: "n = Suc k" using assms(1) by (cases n) auto
  have r1: "Base128StreamReader_next \<lparr>rd_data = D, rd_pos = length pre, rd_end = length D\<rparr>
            = Inr (of_nat n :: 'a word, ?s1)"
    using assms(3) assms(5) by (rule stream_next_encoding)
  have "D = (pre @ ?en) @ ?ev @ rest" using assms(5) by simp
  from stream_next_encoding [OF assms(4) this]
  have r2: "Base128StreamReader_next ?s1 = Inr (v, ?s2)"
    by simp
  have k: "(of_nat n :: 'a word) - 1 = of_nat k"
    unfolding n by simp
  have first: "RLEStreamReader_next Base128StreamReader_next
           \<lparr>rr_stream = \<lparr>rd_data = D, rd_pos = length pre, rd_end = length D\<rparr>,
            rr_prev = q, rr_reps = 0\<rparr>
        = Inr (v, \<lparr>rr_stream = ?s2, rr_prev = v, rr_reps = of_nat k\<rparr>)"
    by (simp add: RLEStreamReader_next_def and_then_simps r1 r2 k)
  have "k < 2 ^ LENGTH('a)" using assms(2) n by simp
  from rle_next_pending [OF this, of Base128StreamReader_next ?s2 v]
  have "next_n (RLEStreamReader_next Base128StreamReader_next) (Suc k)
           \<lparr>rr_stream = \<lparr>rd_data = D, rd_pos = length pre, rd_end = length D\<rparr>,
            rr_prev = q, rr_reps = 0\<rparr>
         = Inr (replicate (Suc k) v, \<lparr>rr_stream = ?s2, rr_prev = v, rr_reps = 0\<rparr>)"
    by (simp only: next_n.simps first and_then_simps prod.case replicate_Suc)
  then show ?thesis
    by (simp only: n)
qed

lemma rle_reader_runs:
  fixes p :: "'a::len word"
  assumes "0 < m"
    and "\<forall>(n, v) \<in> set (runs_from m p xs).
           n < 2 ^ LENGTH('a) \<and> shifts_exactly (of_nat n :: 'a word) \<and> shifts_exactly v"
    and "D = pre @ pairs_encoding (runs_from m p xs)"
  shows "\<exists>r. next_n (RLEStreamReader_next Base128StreamReader_next) (m + length xs)
           \<lparr>rr_stream = \<lparr>rd_data = D, rd_pos = length pre, rd_end = length D\<rparr>,
            rr_prev = q, rr_reps = 0\<rparr>
         = Inr (replicate m p @ xs, r)"
  using assms
proof (induction xs arbitrary: m p pre q)
  case Nil
  then have D: "D = pre @ Base128Int_put_unchecked (of_nat m :: 'a word) [] @
               Base128Int_put_unchecked p [] @ []"
    by (simp add: pairs_encoding_simps)
  from Nil have "m < 2 ^ LENGTH('a)" "shifts_exactly (of_nat m :: 'a word)" "shifts_exactly p"
    by simp_all
  from rle_next_pair [OF Nil.prems(1) this D, of q] show ?case
    by simp
next
  case (Cons x xs)
  show ?case
  proof (cases "x = p")
    case True
    with Cons.prems have
      "\<forall>(n, v) \<in> set (runs_from (Suc m) p xs).
           n < 2 ^ LENGTH('a) \<and> shifts_exactly (of_nat n :: 'a word) \<and> shifts_exactly v"
      and "D = pre @ pairs_encoding (runs_from (Suc m) p xs)"
      by simp_all
    from Cons.IH [OF _ this, of q] True show ?thesis
      by (simp add: replicate_app_Cons_same)
  next
    case False
    let ?en = "Base128Int_put_unchecked (of_nat m :: 'a word) []"
    let ?ev = "Base128Int_put_unchecked p []"
    from False Cons.prems have m: "m < 2 ^ LENGTH('a)" "shifts_exactly (of_nat m :: 'a word)"
        "shifts_exactly p"
      and rest: "\<forall>(n, v) \<in> set (runs_from 1 x xs).
           n < 2 ^ LENGTH('a) \<and> shifts_exactly (of_nat n :: 'a word) \<and> shifts_exactly v"
      and D: "D = pre @ ?en @ ?ev @ pairs_encoding (runs_from 1 x xs)"
      by (simp_all add: pairs_encoding_simps)
    have D': "D = (pre @ ?en @ ?ev) @ pairs_encoding (runs_from 1 x xs)"
      using D by simp
    from Cons.IH [OF _ rest D', of p] obtain r where
      tail: "next_n (RLEStreamReader_next Base128StreamReader_next) (1 + length xs)
           \<lparr>rr_stream = \<lparr>rd_data = D, rd_pos = length pre + length ?en + length ?ev,
                          rd_end = length D\<rparr>,
            rr_prev = p, rr_reps = 0\<rparr>
         = Inr (replicate 1 x @ xs, r)"
      by (auto simp: add.assoc)
    have split: "m + length (x # xs) = m + (1 + length xs)" by simp
    show ?thesis
      unfolding split next_n_add [of _ m]
      using rle_next_pair [OF Cons.prems(1) m D, of q] tail
      by (simp add: and_then_simps)
  qed
qed

text \<open>
  The run counter \<^verbatim>\<open>reps_\<close> is a \<^verbatim>\<open>TVal\<close>.  With \<^verbatim>\<open>TVal = uint8_t\<close>, 256 times the value 5
  bring it back to 0, and the run is not committed when the value 6 follows: the stream
  holds the pair (1, 6) after \<^verbatim>\<open>close\<close>, the reader returns 6 first and has nothing to
  read at its second call.
\<close>

lemma rle_run_of_256_bytes:
  "rle_encode (replicate 256 5 @ [6] :: 8 word list) = Inr [1, 6]"
  "rle_decode 257 [1, 6] = (Inl AssertionFailed :: error + 8 word list)"
  by code_simp+

text \<open>
  C5 as stated: for every sequence \<open>S\<close>, the values put through an \<^verbatim>\<open>RLEStreamWriter\<close> over a
  \<^verbatim>\<open>Base128StreamWriter\<close>, then \<^verbatim>\<open>close\<close>, then as many values read through an
  \<^verbatim>\<open>RLEStreamReader\<close> over the same bytes, would be \<open>S\<close>.  With 8-bit values, 256 times 5
  and then 6 are not read back.
\<close>

theorem C5_rle_run_of_256_counterexample:
  "and_then (rle_encode (replicate 256 5 @ [6] :: 8 word list))
     (rle_decode (length (replicate 256 (5 :: 8 word) @ [6])))
   \<noteq> Inr (replicate 256 5 @ [6] :: 8 word list)"
  by (simp add: rle_run_of_256_bytes and_then_simps)

text \<open>
  C5, amended: for every sequence \<open>S\<close> of values of width \<open>W\<close> whose runs of equal values are
  each shorter than \<open>2^W\<close>, and whose values and run lengths are below \<open>2^31\<close> when \<open>W\<close> is
  more than 32: the values put through an \<^verbatim>\<open>RLEStreamWriter\<close> over a \<^verbatim>\<open>Base128StreamWriter\<close>,
  then \<^verbatim>\<open>close\<close>, then as many values read through an \<^verbatim>\<open>RLEStreamReader\<close> over a
  \<^verbatim>\<open>Base128StreamReader\<close> of the same bytes, are \<open>S\<close>, whatever the lengths of the runs.
\<close>

theorem C5_rle_roundtrip_short_runs:
  fixes S :: "'a::len word list"
  assumes "\<forall>(n, v) \<in> set (runs S).
             n < 2 ^ LENGTH('a) \<and> (32 < LENGTH('a) \<longrightarrow> n < 2 ^ 31 \<and> unat v < 2 ^ 31)"
  shows "and_then (rle_encode S) (rle_decode (length S)) = Inr S"
proof (cases S)
  case Nil
  then show ?thesis
    by (simp add: rle_encode_def rle_decode_def RLEStreamWriter_init_def rle_close_bytes
        and_then_simps)
next
  case (Cons x xs)
  have ok: "n < 2 ^ LENGTH('a) \<and> shifts_exactly (of_nat n :: 'a word) \<and> shifts_exactly v"
    if "(n, v) \<in> set (runs_from 1 x xs)" for n v
  proof -
    from that assms Cons have b: "n < 2 ^ LENGTH('a)"
      and l: "32 < LENGTH('a) \<longrightarrow> n < 2 ^ 31 \<and> unat v < 2 ^ 31"
      by (auto simp: runs_def)
    from b have "unat (of_nat n :: 'a word) = n" by (simp add: unat_of_nat)
    with b l show ?thesis by (auto simp: shifts_exactly_def not_less [symmetric])
  qed
  then have len: "\<forall>(n, v) \<in> set (runs_from 1 x xs). n < 2 ^ LENGTH('a)"
    and all: "\<forall>(n, v) \<in> set (runs_from 1 x xs).
           n < 2 ^ LENGTH('a) \<and> shifts_exactly (of_nat n :: 'a word) \<and> shifts_exactly v"
    by auto
  from rle_writer_runs [OF _ len, of "[]"] obtain w where
    w: "and_then (put_all (RLEStreamWriter_put Base128StreamWriter_put) xs
                          \<lparr>rw_stream = [], rw_prev = x, rw_reps = 1\<rparr>)
                (RLEStreamWriter_close Base128StreamWriter_put) = Inr w"
    and bytes: "rw_stream w = pairs_encoding (runs_from 1 x xs)"
    by auto
  have enc: "rle_encode S = Inr (pairs_encoding (runs_from 1 x xs))"
  proof (cases "put_all (RLEStreamWriter_put Base128StreamWriter_put) xs
                          \<lparr>rw_stream = [], rw_prev = x, rw_reps = 1 :: 'a word\<rparr>")
    case (Inl e)
    with w show ?thesis by (simp add: and_then_simps)
  next
    case (Inr w0)
    with w bytes show ?thesis
      by (simp add: rle_encode_def Cons rle_put_first and_then_simps)
  qed
  from rle_reader_runs [OF _ all, of "pairs_encoding (runs_from 1 x xs)" "[]" 0]
  obtain r where "next_n (RLEStreamReader_next Base128StreamReader_next) (1 + length xs)
           \<lparr>rr_stream = \<lparr>rd_data = pairs_encoding (runs_from 1 x xs), rd_pos = 0,
                          rd_end = length (pairs_encoding (runs_from 1 x xs))\<rparr>,
            rr_prev = 0, rr_reps = 0\<rparr>
         = Inr ([x] @ xs, r)"
    by (auto simp del: next_n.simps)
  then have "rle_decode (length S) (pairs_encoding (runs_from 1 x xs)) = Inr S"
    by (simp del: next_n.simps
        add: Cons rle_decode_def RLEStreamReader_init_def Base128StreamReader_init_def
          and_then_simps)
  then show ?thesis
    by (simp only: enc and_then_simps)
qed

theorem C5_rle_roundtrip_short_runs_witness:
  "runs [5, 5, 5, 0, 0, 300 :: 64 word] = [(3, 5), (2, 0), (1, 300)] \<and>
   and_then (rle_encode [5, 5, 5, 0, 0, 300 :: 64 word])
     (rle_decode (length [5, 5, 5, 0, 0, 300 :: 64 word])) = Inr [5, 5, 5, 0, 0, 300 :: 64 word]"
proof -
  have r: "runs [5, 5, 5, 0, 0, 300 :: 64 word] = [(3, 5), (2, 0), (1, 300)]"
    by (simp add: runs_def)
  have "\<forall>(n, v) \<in> set (runs [5, 5, 5, 0, 0, 300 :: 64 word]).
          n < 2 ^ LENGTH(64) \<and> (32 < LENGTH(64) \<longrightarrow> n < 2 ^ 31 \<and> unat v < 2 ^ 31)"
    unfolding r by simp
  from C5_rle_roundtrip_short_runs [OF this] r show ?thesis
    by simp
qed

section \<open>\<^verbatim>\<open>RLEStreamWriter\<close> over \<^verbatim>\<open>DeltaStreamWriter\<close>\<close>

lemma rle_delta_w64:
  "rle_delta_encode [100, 100, 100, 105, 105, 110 :: 64 word] = Inl AssertionFailed"
  "and_then (delta_rle_encode [100, 100, 100, 105, 105, 110 :: 64 word]) (delta_rle_decode 6)
     = Inr [100, 100, 100, 105, 105, 110 :: 64 word]"
  by code_simp+

lemma rle_delta_w32:
  "rle_delta_encode [100, 100, 100, 105, 105, 110 :: 32 word] = Inl AssertionFailed"
  "and_then (delta_rle_encode [100, 100, 100, 105, 105, 110 :: 32 word]) (delta_rle_decode 6)
     = Inr [100, 100, 100, 105, 105, 110 :: 32 word]"
  by code_simp+

lemma rle_delta_w16:
  "rle_delta_encode [100, 100, 100, 105, 105, 110 :: 16 word] = Inl AssertionFailed"
  "and_then (delta_rle_encode [100, 100, 100, 105, 105, 110 :: 16 word]) (delta_rle_decode 6)
     = Inr [100, 100, 100, 105, 105, 110 :: 16 word]"
  by code_simp+

lemma rle_delta_w8:
  "rle_delta_encode [100, 100, 100, 105, 105, 110 :: 8 word] = Inl AssertionFailed"
  "and_then (delta_rle_encode [100, 100, 100, 105, 105, 110 :: 8 word]) (delta_rle_decode 6)
     = Inr [100, 100, 100, 105, 105, 110 :: 8 word]"
  by code_simp+

text \<open>
  Where this writer stack stops on \<^verbatim>\<open>[100,100,100,105,105,110]\<close>: the first five values
  are taken, the run (3, 100)
  being committed as the deltas 3 and 97; the put of 110 commits the run (2, 105), and
  the \<^verbatim>\<open>DeltaStreamWriter\<close> refuses the count 2 after the value 100.
\<close>

lemma rle_delta_fails_at_110:
  "put_all (RLEStreamWriter_put (DeltaStreamWriter_put Base128StreamWriter_put))
     [100, 100, 100, 105, 105 :: 64 word] (RLEStreamWriter_init (DeltaStreamWriter_init []))
   = Inr \<lparr>rw_stream = \<lparr>dw_stream = [3, 97], dw_prev = 100\<rparr>, rw_prev = 105, rw_reps = 2\<rparr>"
  "RLEStreamWriter_put (DeltaStreamWriter_put Base128StreamWriter_put) (110 :: 64 word)
     \<lparr>rw_stream = \<lparr>dw_stream = [3, 97], dw_prev = 100\<rparr>, rw_prev = 105, rw_reps = 2\<rparr>
   = Inl AssertionFailed"
  "DeltaStreamWriter_put Base128StreamWriter_put (2 :: 64 word) \<lparr>dw_stream = [3, 97], dw_prev = 100\<rparr>
   = Inl AssertionFailed"
  by code_simp+

text \<open>
  C2 as stated: \<^verbatim>\<open>[100,100,100,105,105,110]\<close> through \<^verbatim>\<open>RLEStreamWriter\<close> over
  \<^verbatim>\<open>DeltaStreamWriter\<close> over \<^verbatim>\<open>Base128StreamWriter\<close>, closed, and six values read back
  through the symmetric reader stack, would be the sequence again.  It is not: the writer
  stack fails.
\<close>

theorem C2_rle_over_delta_counterexample:
  "and_then (rle_delta_encode [100, 100, 100, 105, 105, 110 :: 64 word]) (rle_delta_decode 6)
     \<noteq> Inr [100, 100, 100, 105, 105, 110 :: 64 word]"
  by (simp add: rle_delta_w64(1) and_then_simps)

text \<open>
  C2, amended: fed \<^verbatim>\<open>[100,100,100,105,105,110]\<close>, the writer stack \<^verbatim>\<open>RLEStreamWriter\<close> over
  \<^verbatim>\<open>DeltaStreamWriter\<close> over \<^verbatim>\<open>Base128StreamWriter\<close> fails the assertion of
  \<^verbatim>\<open>DeltaStreamWriter::put\<close>.  Stacked the other way round, \<^verbatim>\<open>DeltaStreamWriter\<close> over
  \<^verbatim>\<open>RLEStreamWriter\<close> over \<^verbatim>\<open>Base128StreamWriter\<close>, the writer takes the sequence and, after
  \<^verbatim>\<open>close\<close>, six calls of \<^verbatim>\<open>next\<close> on the symmetric reader stack return it.  This holds for
  values of 64, 32, 16 and 8 bits.
\<close>

theorem C2_rle_over_delta_rejected_delta_over_rle_roundtrip:
  "rle_delta_encode [100, 100, 100, 105, 105, 110 :: 64 word] = Inl AssertionFailed \<and>
   and_then (delta_rle_encode [100, 100, 100, 105, 105, 110 :: 64 word]) (delta_rle_decode 6)
     = Inr [100, 100, 100, 105, 105, 110 :: 64 word] \<and>
   rle_delta_encode [100, 100, 100, 105, 105, 110 :: 32 word] = Inl AssertionFailed \<and>
   and_then (delta_rle_encode [100, 100, 100, 105, 105, 110 :: 32 word]) (delta_rle_decode 6)
     = Inr [100, 100, 100, 105, 105, 110 :: 32 word] \<and>
   rle_delta_encode [100, 100, 100, 105, 105, 110 :: 16 word] = Inl AssertionFailed \<and>
   and_then (delta_rle_encode [100, 100, 100, 105, 105, 110 :: 16 word]) (delta_rle_decode 6)
     = Inr [100, 100, 100, 105, 105, 110 :: 16 word] \<and>
   rle_delta_encode [100, 100, 100, 105, 105, 110 :: 8 word] = Inl AssertionFailed \<and>
   and_then (delta_rle_encode [100, 100, 100, 105, 105, 110 :: 8 word]) (delta_rle_decode 6)
     = Inr [100, 100, 100, 105, 105, 110 :: 8 word]"
  by (intro conjI rle_delta_w64 rle_delta_w32 rle_delta_w16 rle_delta_w8)

end
